theory Spec2Isabelle
  imports Complex_Main "HOL-Library.Word" "HOL-Library.Log_Nat"
begin

unbundle bit_operations_syntax

section \<open>Pixel format resolver\<close>

text \<open>
  \<^verbatim>\<open>_gst_libde265_get_video_format\<close> (libde265-dec.c, lines 303-394), in the
  configuration with GStreamer 1.0 or newer (the only one with the 10-bit formats and the
  direct-rendering code). \<^verbatim>\<open>enum de265_chroma\<close> is a C enum, so the switch can
  also see a value that is none of the four layouts; it is the constructor
  \<open>de265_chroma_other\<close> and takes the \<^verbatim>\<open>default\<close> branch.
  \<^verbatim>\<open>bits_per_pixel\<close> is a C \<^verbatim>\<open>int\<close>.
\<close>

datatype de265_chroma =
    de265_chroma_mono
  | de265_chroma_420
  | de265_chroma_422
  | de265_chroma_444
  | de265_chroma_other

datatype GstVideoFormat =
    GST_VIDEO_FORMAT_UNKNOWN
  | GST_VIDEO_FORMAT_GRAY8
  | GST_VIDEO_FORMAT_I420
  | GST_VIDEO_FORMAT_I420_10LE
  | GST_VIDEO_FORMAT_Y42B
  | GST_VIDEO_FORMAT_I422_10LE
  | GST_VIDEO_FORMAT_Y444
  | GST_VIDEO_FORMAT_Y444_10LE

text \<open>
  The inner \<^verbatim>\<open>switch (bits_per_pixel)\<close> is the same in the three colour branches
  but for the two formats it returns: cases 8, 9, 10, then the \<^verbatim>\<open>default\<close> with its
  range test.
\<close>

definition switch_bits_per_pixel ::
  "GstVideoFormat \<Rightarrow> GstVideoFormat \<Rightarrow> int \<Rightarrow> GstVideoFormat" where
  "switch_bits_per_pixel fmt8 fmt10 bits_per_pixel =
     (if bits_per_pixel = 8 then fmt8
      else if bits_per_pixel = 9 then fmt10
      else if bits_per_pixel = 10 then fmt10
      else if bits_per_pixel > 10 \<and> bits_per_pixel \<le> 16 then fmt10
      else GST_VIDEO_FORMAT_UNKNOWN)"

fun gst_libde265_get_video_format :: "de265_chroma \<Rightarrow> int \<Rightarrow> GstVideoFormat" where
  "gst_libde265_get_video_format de265_chroma_mono bits_per_pixel = GST_VIDEO_FORMAT_GRAY8"
| "gst_libde265_get_video_format de265_chroma_420 bits_per_pixel =
     switch_bits_per_pixel GST_VIDEO_FORMAT_I420 GST_VIDEO_FORMAT_I420_10LE bits_per_pixel"
| "gst_libde265_get_video_format de265_chroma_422 bits_per_pixel =
     switch_bits_per_pixel GST_VIDEO_FORMAT_Y42B GST_VIDEO_FORMAT_I422_10LE bits_per_pixel"
| "gst_libde265_get_video_format de265_chroma_444 bits_per_pixel =
     switch_bits_per_pixel GST_VIDEO_FORMAT_Y444 GST_VIDEO_FORMAT_Y444_10LE bits_per_pixel"
| "gst_libde265_get_video_format de265_chroma_other bits_per_pixel = GST_VIDEO_FORMAT_UNKNOWN"

text \<open>
  \<^verbatim>\<open>GST_VIDEO_FORMAT_INFO_BITS\<close> of GStreamer's format table, which is not part of this
  repository: 8 for the 8-bit formats, 10 for the \<^verbatim>\<open>_10LE\<close> ones (and 0 for the
  unknown format, which no caller asks for).
\<close>

fun GST_VIDEO_FORMAT_INFO_BITS :: "GstVideoFormat \<Rightarrow> int" where
  "GST_VIDEO_FORMAT_INFO_BITS GST_VIDEO_FORMAT_UNKNOWN = 0"
| "GST_VIDEO_FORMAT_INFO_BITS GST_VIDEO_FORMAT_GRAY8 = 8"
| "GST_VIDEO_FORMAT_INFO_BITS GST_VIDEO_FORMAT_I420 = 8"
| "GST_VIDEO_FORMAT_INFO_BITS GST_VIDEO_FORMAT_I420_10LE = 10"
| "GST_VIDEO_FORMAT_INFO_BITS GST_VIDEO_FORMAT_Y42B = 8"
| "GST_VIDEO_FORMAT_INFO_BITS GST_VIDEO_FORMAT_I422_10LE = 10"
| "GST_VIDEO_FORMAT_INFO_BITS GST_VIDEO_FORMAT_Y444 = 8"
| "GST_VIDEO_FORMAT_INFO_BITS GST_VIDEO_FORMAT_Y444_10LE = 10"

section \<open>The decode engine as seen from the plugin\<close>

text \<open>
  libde265 is a black box behind \<^verbatim>\<open>dec->ctx\<close>. The model keeps the list of calls made
  on it, oldest first, and takes the engine's answer to a call as a function of the calls
  made before it and of the call itself, which any deterministic engine is. A pushed
  buffer is recorded with the bytes the pointer and length designate, with the length
  argument itself (a C \<^verbatim>\<open>int\<close>) and with the timestamp argument.

  \<^verbatim>\<open>de265_error\<close> is an enum: 0 is \<^verbatim>\<open>DE265_OK\<close>, the values from 1000 on are
  warnings, and libde265's \<^verbatim>\<open>de265_isOK\<close> accepts both.
\<close>

type_synonym byte = "8 word"

type_synonym de265_error = int

definition DE265_OK :: de265_error where
  "DE265_OK = 0"

definition de265_isOK :: "de265_error \<Rightarrow> bool" where
  "de265_isOK err = (err = DE265_OK \<or> err \<ge> 1000)"

datatype engine_call =
    de265_push_NAL "byte list" int int
  | de265_push_data "byte list" int int
  | de265_push_end_of_NAL
  | de265_push_end_of_stream

type_synonym engine = "engine_call list \<Rightarrow> engine_call \<Rightarrow> de265_error"

section \<open>The decoder object\<close>

datatype dec_mode = GST_TYPE_LIBDE265_DEC_PACKETIZED | GST_TYPE_LIBDE265_DEC_RAW

datatype warning =
    Unsupported_extra_data_version byte
  | Framerate_is_too_high int int

text \<open>
  The messages of the \<^verbatim>\<open>GST_ELEMENT_ERROR\<close> calls that end \<^verbatim>\<open>set_format\<close> and the
  input stage of \<^verbatim>\<open>handle_frame\<close>.
\<close>

datatype stream_error =
    Buffer_underrun_in_extra_header
  | Buffer_underrun_in_extra_nal_header
  | Buffer_underrun_in_extra_nal
  | Failed_to_push_data de265_error
  | Failed_to_push_codec_data de265_error
  | Overflow_in_input_data
  | Error_while_pushing_data de265_error
  | Error_while_flushing_data de265_error
  | Failed_to_decode_codec_data de265_error

text \<open>
  The fields of \<^verbatim>\<open>GstLibde265Dec\<close> that the modelled functions read or write.
  \<open>ctx\<close> stands for the engine instance: the calls made on it so far.
  \<open>warnings\<close> collects what the functions report without failing.
\<close>

record GstLibde265Dec =
  mode :: dec_mode
  length_size :: int
  fps_n :: int
  fps_d :: int
  width :: int
  height :: int
  codec_data :: "byte list"
  ctx :: "engine_call list"
  warnings :: "warning list"

text \<open>\<^verbatim>\<open>gst_libde265_dec_init\<close> with \<^verbatim>\<open>_gst_libde265_dec_reset_decoder\<close>.\<close>

definition gst_libde265_dec_init :: GstLibde265Dec where
  "gst_libde265_dec_init =
     \<lparr>mode = GST_TYPE_LIBDE265_DEC_PACKETIZED, length_size = 4, fps_n = 0, fps_d = 1,
      width = -1, height = -1, codec_data = [], ctx = [], warnings = []\<rparr>"

section \<open>Parameter-set ingestor\<close>

text \<open>
  \<^verbatim>\<open>gst_libde265_dec_set_format\<close>, the branch that handles a \<^verbatim>\<open>codec_data\<close> buffer,
  from the point where the buffer is mapped (line 849) to the return (lines 855-962). The
  allocation of line 856 is taken to succeed.

  \<^verbatim>\<open>pos\<close> is a C \<^verbatim>\<open>int\<close> and \<^verbatim>\<open>size\<close> a \<^verbatim>\<open>gsize\<close>. A sum such as
  \<^verbatim>\<open>pos + 3\<close> is computed in \<^verbatim>\<open>int\<close>, where it wraps around at 32 bits, and is then
  converted to the unsigned 64-bit type of \<^verbatim>\<open>size\<close> for the comparison, so that a
  negative sum compares as a very large size. The same conversion, the other way round,
  turns \<^verbatim>\<open>size\<close> into the \<^verbatim>\<open>int\<close> length argument of \<^verbatim>\<open>de265_push_data\<close>.
\<close>

definition c_int :: "int \<Rightarrow> int" where
  \<comment> \<open>the \<^verbatim>\<open>int\<close> that represents a value: reduced modulo \<open>2 ^ 32\<close> into \<open>-2 ^ 31 .. 2 ^ 31 - 1\<close>\<close>
  "c_int x = (x + 2 ^ 31) mod 2 ^ 32 - 2 ^ 31"

definition gsize_of_int :: "int \<Rightarrow> nat" where
  \<comment> \<open>the \<^verbatim>\<open>gsize\<close> an \<^verbatim>\<open>int\<close> is converted to: reduced modulo \<open>2 ^ 64\<close>\<close>
  "gsize_of_int x = nat (x mod 2 ^ 64)"

text \<open>
  \<^verbatim>\<open>nal_count\<close> and \<^verbatim>\<open>nal_size\<close> are built from two unsigned bytes and lie between 0
  and 65535; the loop counters \<^verbatim>\<open>i\<close> and \<^verbatim>\<open>j\<close> stay below 256 and 65536. Each loop
  counts its remaining iterations down. The indices \<^verbatim>\<open>pos\<close>, \<^verbatim>\<open>pos + 1\<close> and
  \<^verbatim>\<open>pos + 2\<close> are read only after a larger sum has passed the bounds test, so they
  are written without the wrap-around; a pointer sum such as \<^verbatim>\<open>data + pos + 2\<close> is not
  \<^verbatim>\<open>int\<close> arithmetic.

  The inner loop, \<^verbatim>\<open>for (j = 0; j < nal_count; j++)\<close>, started with
  \<^verbatim>\<open>nal_count - j\<close> iterations to go:
\<close>

definition read_be16 :: "byte list \<Rightarrow> nat \<Rightarrow> nat" where
  \<comment> \<open>\<^verbatim>\<open>data[pos] << 8 | data[pos + 1]\<close>, the bytes promoted to \<^verbatim>\<open>int\<close>\<close>
  "read_be16 data pos = nat (push_bit 8 (uint (data ! pos)) OR uint (data ! (pos + 1)))"

fun nal_loop ::
  "engine \<Rightarrow> byte list \<Rightarrow> nat \<Rightarrow> int \<times> engine_call list \<Rightarrow>
   stream_error \<times> engine_call list + int \<times> engine_call list" where
  "nal_loop eng data 0 (pos, calls) = Inr (pos, calls)"
| "nal_loop eng data (Suc n) (pos, calls) =
     (if gsize_of_int (c_int (pos + 2)) > length data
      then Inl (Buffer_underrun_in_extra_nal_header, calls)
      else
        let nal_size = int (read_be16 data (nat pos)) in
        if gsize_of_int (c_int (pos + 2 + nal_size)) > length data
        then Inl (Buffer_underrun_in_extra_nal, calls)
        else
          let c = de265_push_NAL (take (nat nal_size) (drop (nat (pos + 2)) data)) nal_size 0;
              err = eng calls c
          in if \<not> de265_isOK err then Inl (Failed_to_push_data err, calls @ [c])
             else nal_loop eng data n (c_int (pos + 2 + nal_size), calls @ [c]))"

text \<open>The outer loop, \<^verbatim>\<open>for (i = 0; i < num_param_sets; i++)\<close>:\<close>

fun param_set_loop ::
  "engine \<Rightarrow> byte list \<Rightarrow> nat \<Rightarrow> int \<times> engine_call list \<Rightarrow>
   stream_error \<times> engine_call list + int \<times> engine_call list" where
  "param_set_loop eng data 0 (pos, calls) = Inr (pos, calls)"
| "param_set_loop eng data (Suc n) (pos, calls) =
     (if gsize_of_int (c_int (pos + 3)) > length data
      then Inl (Buffer_underrun_in_extra_header, calls)
      else
        let nal_count = read_be16 data (nat (pos + 1)) in
        case nal_loop eng data nal_count (c_int (pos + 3), calls) of
          Inl e \<Rightarrow> Inl e
        | Inr pc \<Rightarrow> param_set_loop eng data n pc)"

text \<open>
  The decode loop that ends the function when it is built against libde265 before 2.0
  (lines 931-951). \<^verbatim>\<open>de265_decode\<close> takes no input; the engine's answer to the
  \<open>k\<close>-th call of the loop, the error code and the \<^verbatim>\<open>more\<close> flag, is a function of
  \<open>k\<close> and of what has been pushed. Nothing bounds the number of iterations: the loop is
  a partial function, and \<open>None\<close> is a loop that never ends.
\<close>

definition DE265_ERROR_IMAGE_BUFFER_FULL :: de265_error where
  "DE265_ERROR_IMAGE_BUFFER_FULL = 9"

definition DE265_ERROR_WAITING_FOR_INPUT_DATA :: de265_error where
  "DE265_ERROR_WAITING_FOR_INPUT_DATA = 13"

type_synonym decoder = "engine_call list \<Rightarrow> nat \<Rightarrow> de265_error \<times> int"

datatype gboolean_result = Return_TRUE | Return_FALSE stream_error

partial_function (option) decode_loop ::
  "(nat \<Rightarrow> de265_error \<times> int) \<Rightarrow> nat \<Rightarrow> gboolean_result option" where
  "decode_loop answer k =
     (let err = fst (answer k);
          more = (if err = DE265_ERROR_IMAGE_BUFFER_FULL \<or> err = DE265_ERROR_WAITING_FOR_INPUT_DATA
                  then 0 else snd (answer k))
      in if err \<noteq> DE265_OK \<and> err \<noteq> DE265_ERROR_IMAGE_BUFFER_FULL \<and>
            err \<noteq> DE265_ERROR_WAITING_FOR_INPUT_DATA \<and> \<not> de265_isOK err
         then Some (Return_FALSE (Failed_to_decode_codec_data err))
         else if more \<noteq> 0 then decode_loop answer (k + 1)
         else Some Return_TRUE)"

text \<open>
  The function. The first component of the result is how the call ends: with
  \<^verbatim>\<open>return TRUE\<close>, with an error posted and \<^verbatim>\<open>return FALSE\<close>, or not at all
  (\<open>None\<close>); the second is the decoder object as the call leaves it. \<open>v2\<close> is
  \<^verbatim>\<open>LIBDE265_CHECK_VERSION(2,0,0)\<close>: with libde265 2.0 or later the decode loop is
  not compiled and the function returns after \<^verbatim>\<open>de265_push_end_of_NAL\<close>. The mode is
  stored before the record is parsed, and stays stored when the parse fails.
\<close>

definition is_hvcC :: "byte list \<Rightarrow> bool" where
  \<comment> \<open>\<^verbatim>\<open>size > 3 && (data[0] || data[1] || data[2] > 1)\<close>\<close>
  "is_hvcC data = (length data > 3 \<and> (data ! 0 \<noteq> 0 \<or> data ! 1 \<noteq> 0 \<or> data ! 2 > 1))"

definition gst_libde265_dec_set_format ::
  "bool \<Rightarrow> engine \<Rightarrow> decoder \<Rightarrow> byte list \<Rightarrow> GstLibde265Dec \<Rightarrow>
   gboolean_result option \<times> GstLibde265Dec" where
  "gst_libde265_dec_set_format v2 eng dcd data dec0 =
     (let dec = dec0\<lparr>codec_data := data\<rparr>;
          size = length data;
          finish = (\<lambda>d. let d = d\<lparr>ctx := ctx d @ [de265_push_end_of_NAL]\<rparr>
                         in (if v2 then Some Return_TRUE else decode_loop (dcd (ctx d)) 0, d))
      in
      if is_hvcC data then
        let dec = dec\<lparr>mode := GST_TYPE_LIBDE265_DEC_PACKETIZED\<rparr> in
        if size > 22 then
          let dec = (if data ! 0 \<noteq> 0
                     then dec\<lparr>warnings := warnings dec @ [Unsupported_extra_data_version (data ! 0)]\<rparr>
                     else dec);
              dec = dec\<lparr>length_size := uint (data ! 21 AND 3) + 1\<rparr>;
              num_param_sets = unat (data ! 22)
          in case param_set_loop eng data num_param_sets (23, ctx dec) of
               Inl (e, calls) \<Rightarrow> (Some (Return_FALSE e), dec\<lparr>ctx := calls\<rparr>)
             | Inr (pos, calls) \<Rightarrow> finish (dec\<lparr>ctx := calls\<rparr>)
        else finish dec
      else
        let dec = dec\<lparr>mode := GST_TYPE_LIBDE265_DEC_RAW\<rparr>;
            c = de265_push_data data (c_int (int size)) 0;
            err = eng (ctx dec) c;
            dec = dec\<lparr>ctx := ctx dec @ [c]\<rparr>
        in if \<not> de265_isOK err then (Some (Return_FALSE (Failed_to_push_codec_data err)), dec)
           else finish dec)"

subsection \<open>The configuration record, as the specification lays it out\<close>

text \<open>
  The record format in the specification's words: after 23 header bytes (byte 21 holds the
  length-prefix size, byte 22 the number of arrays) come the arrays, each
  [1 header byte][2-byte big-endian unit count] followed by its units, each
  [2-byte big-endian length][payload]. An array is a pair of its header byte and the list
  of its unit payloads. These functions write a record down; the code above reads one.
\<close>

definition be16 :: "nat \<Rightarrow> byte list" where
  "be16 n = [of_nat (n div 256), of_nat (n mod 256)]"

definition encode_unit :: "byte list \<Rightarrow> byte list" where
  "encode_unit u = be16 (length u) @ u"

definition encode_array :: "byte \<times> byte list list \<Rightarrow> byte list" where
  "encode_array a = fst a # be16 (length (snd a)) @ concat (map encode_unit (snd a))"

definition encode_arrays :: "(byte \<times> byte list list) list \<Rightarrow> byte list" where
  "encode_arrays arrays = concat (map encode_array arrays)"

text \<open>
  What the 2-byte fields can hold: fewer than 65536 units in an array, fewer than 65536
  bytes in a unit.
\<close>

definition fits_fields :: "(byte \<times> byte list list) list \<Rightarrow> bool" where
  "fits_fields arrays =
     (\<forall>a\<in>set arrays. length (snd a) < 65536 \<and> (\<forall>u\<in>set (snd a). length u < 65536))"

text \<open>
  The call that hands one parameter-set unit to the engine: its bytes, their number as the
  length argument, timestamp 0.
\<close>

definition param_set_NAL :: "byte list \<Rightarrow> engine_call" where
  "param_set_NAL u = de265_push_NAL u (int (length u)) 0"

definition underrun_errors :: "stream_error set" where
  "underrun_errors = {Buffer_underrun_in_extra_header, Buffer_underrun_in_extra_nal_header,
                      Buffer_underrun_in_extra_nal}"

text \<open>
  An engine on which the decode loop comes to an end without a fatal error, whatever has
  been pushed: after some number of calls that ask for more, one call reports that the
  picture buffer is full, or that input is awaited, or succeeds without asking for more.
\<close>

definition decode_settles :: "decoder \<Rightarrow> bool" where
  "decode_settles dcd =
     (\<forall>calls. \<exists>n.
        (\<forall>k<n. de265_isOK (fst (dcd calls k)) \<and> snd (dcd calls k) \<noteq> 0) \<and>
        (fst (dcd calls n) \<in> {DE265_ERROR_IMAGE_BUFFER_FULL, DE265_ERROR_WAITING_FOR_INPUT_DATA} \<or>
         de265_isOK (fst (dcd calls n)) \<and> snd (dcd calls n) = 0))"

text \<open>The calls a loop has made when it stops, with an error or without.\<close>

definition loop_calls ::
  "stream_error \<times> engine_call list + int \<times> engine_call list \<Rightarrow> engine_call list" where
  "loop_calls r = (case r of Inl (e, calls) \<Rightarrow> calls | Inr (pos, calls) \<Rightarrow> calls)"

definition is_push_data :: "engine_call \<Rightarrow> bool" where
  "is_push_data c = (case c of de265_push_data bs l p \<Rightarrow> True | _ \<Rightarrow> False)"

text \<open>The start-code pattern of the detection rule: the negation of the test on the bytes.\<close>

definition start_code :: "byte list \<Rightarrow> bool" where
  "start_code data = (data ! 0 = 0 \<and> data ! 1 = 0 \<and> data ! 2 \<le> 1)"

text \<open>
  Three concrete buffers. The first is scenario A of the specification: version 0, the
  2-bit field holding 2, one array with one 10-byte unit (byte 1 is a non-zero profile
  byte). The second starts with 00 00 00 and is, field by field, a well-formed record
  with no array. The third is a 5-byte buffer that does not start with a start code.
\<close>

definition scenario_A_header :: "byte list" where
  "scenario_A_header = [0, 1] @ replicate 19 0 @ [2, 1]"

definition scenario_A_arrays :: "(byte \<times> byte list list) list" where
  "scenario_A_arrays = [(32, [[64, 1, 12, 1, 255, 255, 1, 96, 0, 0]])]"

definition start_code_record :: "byte list" where
  "start_code_record = [0, 0, 0, 1] @ replicate 17 0 @ [3, 0]"

definition short_record :: "byte list" where
  "short_record = [1, 2, 3, 4, 5]"

text \<open>An engine that is waiting for input at the first \<^verbatim>\<open>de265_decode\<close>.\<close>

definition waiting_decoder :: decoder where
  "waiting_decoder calls k = (DE265_ERROR_WAITING_FOR_INPUT_DATA, 0)"

section \<open>NAL demuxer\<close>

text \<open>
  The input stage of \<^verbatim>\<open>gst_libde265_dec_handle_frame\<close> (lines 998-1041): what the
  function does with the mapped input buffer before it starts to decode. It ends in one
  of three ways: it falls through to the decode stage, it jumps to \<^verbatim>\<open>error_input\<close>
  after posting an error, or it reads memory outside the buffer, which C leaves undefined.
\<close>

datatype input_result =
    Input_fed
  | Input_error stream_error
  | Out_of_bounds_read

text \<open>
  The length prefix: \<^verbatim>\<open>nal_size = (nal_size << 8) | start_data[i]\<close> for each byte of
  the prefix. \<^verbatim>\<open>nal_size\<close> is a 32-bit \<^verbatim>\<open>int\<close>: the bits are kept in a 32-bit
  word (a shift that leaves the range wraps, as compilers implement it) and read back as
  a two's-complement number.
\<close>

definition read_nal_size :: "byte list \<Rightarrow> 32 word" where
  "read_nal_size prefix = foldl (\<lambda>nal_size b. push_bit 8 nal_size OR ucast b) 0 prefix"

text \<open>
  The \<^verbatim>\<open>while\<close> loop of the packetized branch. Pointers into the chunk are offsets
  from \<^verbatim>\<open>frame_data\<close>, integers that may leave the chunk on either side;
  \<^verbatim>\<open>end_data\<close> is the offset \<open>length chunk\<close>. The loop test guarantees that the
  prefix bytes end inside the chunk, so reading them is out of bounds exactly when
  \<open>start_data\<close> is negative. The loop need not terminate (a length prefix can be
  negative): the function is partial, and \<open>None\<close> is a run that never leaves the loop.
\<close>

partial_function (option) packetized_loop ::
  "engine \<Rightarrow> byte list \<Rightarrow> int \<Rightarrow> int \<Rightarrow> int \<Rightarrow> engine_call list \<Rightarrow>
   (input_result \<times> engine_call list) option" where
  "packetized_loop eng chunk len_size pts start_data calls =
     (if start_data + len_size \<le> int (length chunk) then
        if 0 < len_size \<and> start_data < 0 then Some (Out_of_bounds_read, calls)
        else
          let nal_size = sint (read_nal_size (take (nat len_size) (drop (nat start_data) chunk))) in
          if start_data + len_size + nal_size > int (length chunk)
          then Some (Input_error Overflow_in_input_data, calls)
          else
            let c = de265_push_NAL
                      (take (nat nal_size) (drop (nat (start_data + len_size)) chunk)) nal_size pts;
                ret = eng calls c
            in if ret \<noteq> DE265_OK
               then Some (Input_error (Error_while_pushing_data ret), calls @ [c])
               else packetized_loop eng chunk len_size pts
                      (start_data + len_size + nal_size) (calls @ [c])
      else Some (Input_fed, calls))"

definition handle_frame_input ::
  "engine \<Rightarrow> byte list \<Rightarrow> int \<Rightarrow> GstLibde265Dec \<Rightarrow> (input_result \<times> GstLibde265Dec) option" where
  "handle_frame_input eng chunk pts dec =
     (if length chunk > 0 then
        if mode dec = GST_TYPE_LIBDE265_DEC_PACKETIZED then
          map_option (\<lambda>(r, calls). (r, dec\<lparr>ctx := calls\<rparr>))
            (packetized_loop eng chunk (length_size dec) pts 0 (ctx dec))
        else
          let c = de265_push_data chunk (int (length chunk)) pts;
              ret = eng (ctx dec) c;
              dec = dec\<lparr>ctx := ctx dec @ [c]\<rparr>
          in if ret \<noteq> DE265_OK then Some (Input_error (Error_while_pushing_data ret), dec)
             else Some (Input_fed, dec)
      else
        let c = de265_push_end_of_stream;
            ret = eng (ctx dec) c;
            dec = dec\<lparr>ctx := ctx dec @ [c]\<rparr>
        in if ret \<noteq> DE265_OK then Some (Input_error (Error_while_flushing_data ret), dec)
           else Some (Input_fed, dec))"

subsection \<open>A packetized chunk, as the specification lays it out\<close>

text \<open>
  The specification's packetized stream: a sequence of
  [N-byte big-endian length][payload] records. \<open>be_bytes N n\<close> are the N low-order
  bytes of \<open>n\<close>, most significant first.
\<close>

fun be_bytes :: "nat \<Rightarrow> nat \<Rightarrow> byte list" where
  "be_bytes 0 n = []"
| "be_bytes (Suc k) n = be_bytes k (n div 256) @ [of_nat n]"

definition encode_record :: "nat \<Rightarrow> byte list \<Rightarrow> byte list" where
  "encode_record N payload = be_bytes N (length payload) @ payload"

definition encode_records :: "nat \<Rightarrow> byte list list \<Rightarrow> byte list" where
  "encode_records N payloads = concat (map (encode_record N) payloads)"

text \<open>The call that pushes one payload of a chunk with timestamp \<open>pts\<close>.\<close>

definition chunk_NAL :: "int \<Rightarrow> byte list \<Rightarrow> engine_call" where
  "chunk_NAL pts payload = de265_push_NAL payload (int (length payload)) pts"


text \<open>The number that a list of bytes spells, most significant byte first.\<close>

definition be_value :: "byte list \<Rightarrow> nat" where
  "be_value bs = foldl (\<lambda>a b. a * 256 + unat b) 0 bs"

section \<open>Geometry-change notification\<close>

text \<open>
  \<^verbatim>\<open>_gst_libde265_image_available\<close> (lines 757-810) tests the host's frame rate with
  \<^verbatim>\<open>(state->info.fps_n / (float) state->info.fps_d) > 1000\<close>: both integers are
  converted to single precision, divided in single precision, and the quotient is
  compared with 1000. Single precision is IEEE 754 binary32 with rounding to nearest,
  ties to even: a non-zero number is rounded to 24 significant bits. (All values here lie
  between \<open>2 ^ 31\<close> and its reciprocal in magnitude, far from overflow and from the
  subnormal range.)
\<close>

definition round_half_even :: "rat \<Rightarrow> int" where
  "round_half_even m =
     (let f = \<lfloor>m\<rfloor>; r = m - of_int f
      in if r > 1 / 2 \<or> (r = 1 / 2 \<and> odd f) then f + 1 else f)"

definition float_exponent :: "rat \<Rightarrow> int" where
  \<comment> \<open>the \<open>e\<close> with \<open>2 ^ e \<le> a < 2 ^ (e + 1)\<close>, for a positive \<open>a\<close>\<close>
  "float_exponent a =
     (let e = bitlen (fst (quotient_of a)) - bitlen (snd (quotient_of a))
      in if 2 powi e \<le> a then e else e - 1)"

definition round_to_float :: "rat \<Rightarrow> rat" where
  "round_to_float x =
     (if x = 0 then 0
      else let a = \<bar>x\<bar>; ulp = 2 powi (float_exponent a - 23)
           in sgn x * of_int (round_half_even (a / ulp)) * ulp)"

definition fps_above_1000 :: "int \<Rightarrow> int \<Rightarrow> bool" where
  \<comment> \<open>\<^verbatim>\<open>(fps_n / (float) fps_d) > 1000\<close>, evaluated only when \<^verbatim>\<open>fps_d\<close> is not 0\<close>
  "fps_above_1000 n d =
     (round_to_float (round_to_float (of_int n) / round_to_float (of_int d)) > 1000)"

text \<open>
  The function itself, GStreamer 1.0 branch. \<open>host_fps\<close> is the frame rate that
  \<^verbatim>\<open>gst_video_decoder_set_output_state\<close> copies from the input state into the new
  output state (0/1 when the caps carry none). The result is the frame rate of the output
  state that is negotiated, or \<open>None\<close> when the geometry has not changed and nothing is
  negotiated; the function returns \<^verbatim>\<open>GST_FLOW_OK\<close> either way.
\<close>

definition gst_libde265_image_available ::
  "int \<Rightarrow> int \<Rightarrow> int \<times> int \<Rightarrow> GstLibde265Dec \<Rightarrow> (int \<times> int) option \<times> GstLibde265Dec" where
  "gst_libde265_image_available w h host_fps dec =
     (if w \<noteq> width dec \<or> h \<noteq> height dec then
        let (fps, dec) =
              (if fps_n dec > 0 then ((fps_n dec, fps_d dec), dec)
               else if snd host_fps = 0 \<or> fps_above_1000 (fst host_fps) (snd host_fps)
               then ((24, 1),
                     dec\<lparr>warnings := warnings dec
                            @ [Framerate_is_too_high (fst host_fps) (snd host_fps)]\<rparr>)
               else (host_fps, dec))
        in (Some fps, dec\<lparr>width := w, height := h\<rparr>)
      else (None, dec))"

section \<open>Plane copy/convert engine\<close>

text \<open>
  The plane loop of \<^verbatim>\<open>gst_libde265_dec_handle_frame\<close> (lines 1160-1246), over byte
  memory. What the engine reports for one plane: its width and height in samples, the
  readable memory at \<^verbatim>\<open>src\<close>, the stride in bytes, the bit depth. Sizes are never
  negative and are natural numbers. The output buffer is a byte list and \<^verbatim>\<open>dest\<close> an
  offset into it. C leaves two things undefined that the loop can do: an access outside
  the memory, and a shift by a negative count or by 32 or more (or a left shift out of the
  \<^verbatim>\<open>int\<close> range); both are results of the model.
\<close>

datatype fault = Out_of_bounds | Undefined_shift

record plane =
  p_width :: nat
  p_height :: nat
  p_src :: "byte list"
  p_stride :: nat
  p_bits_per_pixel :: int

text \<open>
  \<^verbatim>\<open>*s\<close> and \<^verbatim>\<open>*d\<close> through \<^verbatim>\<open>uint8_t\<close> and \<^verbatim>\<open>uint16_t\<close> pointers, on a
  little-endian host. A load promotes the sample to \<^verbatim>\<open>int\<close>; a store keeps the low
  8 or 16 bits of the \<^verbatim>\<open>int\<close> it is given.
\<close>

definition load8 :: "byte list \<Rightarrow> nat \<Rightarrow> int option" where
  "load8 mem a = (if a < length mem then Some (uint (mem ! a)) else None)"

definition load16 :: "byte list \<Rightarrow> nat \<Rightarrow> int option" where
  "load16 mem a =
     (if a + 1 < length mem then Some (uint (mem ! a) + 256 * uint (mem ! (a + 1))) else None)"

definition store8 :: "byte list \<Rightarrow> nat \<Rightarrow> int \<Rightarrow> byte list option" where
  "store8 mem a v = (if a < length mem then Some (mem[a := word_of_int v]) else None)"

definition store16 :: "byte list \<Rightarrow> nat \<Rightarrow> int \<Rightarrow> byte list option" where
  "store16 mem a v =
     (if a + 1 < length mem
      then Some (mem[a := word_of_int v, a + 1 := word_of_int (v div 256)])
      else None)"

text \<open>\<^verbatim>\<open>x >> n\<close> and \<^verbatim>\<open>x << n\<close> on a non-negative 32-bit \<^verbatim>\<open>int\<close>.\<close>

definition c_shr :: "int \<Rightarrow> int \<Rightarrow> int option" where
  "c_shr n x = (if 0 \<le> n \<and> n < 32 then Some (drop_bit (nat n) x) else None)"

definition c_shl :: "int \<Rightarrow> int \<Rightarrow> int option" where
  "c_shl n x =
     (if 0 \<le> n \<and> n < 32 \<and> push_bit (nat n) x < 2 ^ 31 then Some (push_bit (nat n) x) else None)"

text \<open>
  \<^verbatim>\<open>for (pos = 0; pos < n; pos++) { *d = op (*s); d++; s++; }\<close> with the load, the
  store and the step of each pointer given by the pointer types.
\<close>

fun sample_loop ::
  "nat \<Rightarrow> (byte list \<Rightarrow> nat \<Rightarrow> int option) \<Rightarrow> nat \<Rightarrow> (int \<Rightarrow> int option) \<Rightarrow>
   (byte list \<Rightarrow> nat \<Rightarrow> int \<Rightarrow> byte list option) \<Rightarrow> nat \<Rightarrow>
   byte list \<Rightarrow> nat \<Rightarrow> byte list \<Rightarrow> nat \<Rightarrow> fault + byte list" where
  "sample_loop 0 ld ls opn st ds src s dest d = Inr dest"
| "sample_loop (Suc n) ld ls opn st ds src s dest d =
     (case ld src s of
        None \<Rightarrow> Inl Out_of_bounds
      | Some v \<Rightarrow>
          (case opn v of
             None \<Rightarrow> Inl Undefined_shift
           | Some x \<Rightarrow>
               (case st dest d x of
                  None \<Rightarrow> Inl Out_of_bounds
                | Some dest' \<Rightarrow> sample_loop n ld ls opn st ds src (s + ls) dest' (d + ds))))"

text \<open>
  \<^verbatim>\<open>while (height--) { row; src += stride; dest += dst_stride; }\<close>; the result is the
  output buffer and the final \<^verbatim>\<open>dest\<close>.
\<close>

fun row_loop ::
  "nat \<Rightarrow> (byte list \<Rightarrow> nat \<Rightarrow> byte list \<Rightarrow> nat \<Rightarrow> fault + byte list) \<Rightarrow> nat \<Rightarrow> nat \<Rightarrow>
   byte list \<Rightarrow> nat \<Rightarrow> byte list \<Rightarrow> nat \<Rightarrow> fault + byte list \<times> nat" where
  "row_loop 0 row stride dst_stride src s dest d = Inr (dest, d)"
| "row_loop (Suc h) row stride dst_stride src s dest d =
     (case row src s dest d of
        Inl f \<Rightarrow> Inl f
      | Inr dest' \<Rightarrow> row_loop h row stride dst_stride src (s + stride) dest' (d + dst_stride))"

definition memcpy :: "byte list \<Rightarrow> nat \<Rightarrow> byte list \<Rightarrow> nat \<Rightarrow> nat \<Rightarrow> fault + byte list" where
  "memcpy dest d src s n =
     (if s + n \<le> length src \<and> d + n \<le> length dest
      then Inr (take d dest @ take n (drop s src) @ drop (d + n) dest)
      else Inl Out_of_bounds)"

text \<open>The body of the \<^verbatim>\<open>for (plane = 0; plane < 3; plane++)\<close> loop, branch by branch.\<close>

definition copy_plane :: "int \<Rightarrow> plane \<Rightarrow> byte list \<times> nat \<Rightarrow> fault + byte list \<times> nat" where
  "copy_plane max_bits_per_pixel p dd =
     (let dest = fst dd; d = snd dd;
          width = p_width p; height = p_height p; src = p_src p; stride = p_stride p;
          dst_stride = width * nat ((max_bits_per_pixel + 7) div 8);
          plane_bits_per_pixel = p_bits_per_pixel p
      in
      if plane_bits_per_pixel > max_bits_per_pixel \<and> max_bits_per_pixel > 8 then
        let shift = plane_bits_per_pixel - max_bits_per_pixel; size = min stride dst_stride
        in row_loop height (sample_loop (size div 2) load16 2 (c_shr shift) store16 2)
             stride dst_stride src 0 dest d
      else if plane_bits_per_pixel > max_bits_per_pixel \<and> max_bits_per_pixel = 8 then
        let shift = plane_bits_per_pixel - max_bits_per_pixel; size = min stride dst_stride
        in row_loop height (sample_loop size load16 2 (c_shr shift) store8 1)
             stride dst_stride src 0 dest d
      else if plane_bits_per_pixel < max_bits_per_pixel \<and> plane_bits_per_pixel > 8 then
        let shift = plane_bits_per_pixel - max_bits_per_pixel; size = min stride dst_stride
        in row_loop height (sample_loop (size div 2) load16 2 (c_shr shift) store16 2)
             stride dst_stride src 0 dest d
      else if plane_bits_per_pixel < max_bits_per_pixel \<and> plane_bits_per_pixel = 8 then
        let shift = max_bits_per_pixel - plane_bits_per_pixel; size = min stride dst_stride
        in row_loop height (sample_loop size load8 1 (c_shl shift) store16 2)
             stride dst_stride src 0 dest d
      else if stride = width then
        (case memcpy dest d src 0 (height * stride) of
           Inl f \<Rightarrow> Inl f
         | Inr dest' \<Rightarrow> Inr (dest', d + height * stride))
      else row_loop height (\<lambda>src s dest d. memcpy dest d src s width) stride width src 0 dest d)"

text \<open>The three planes in turn, \<^verbatim>\<open>dest\<close> running on from one plane to the next.\<close>

fun copy_planes :: "int \<Rightarrow> plane list \<Rightarrow> byte list \<times> nat \<Rightarrow> fault + byte list \<times> nat" where
  "copy_planes max_bits_per_pixel [] dd = Inr dd"
| "copy_planes max_bits_per_pixel (p # ps) dd =
     (case copy_plane max_bits_per_pixel p dd of
        Inl f \<Rightarrow> Inl f
      | Inr dd' \<Rightarrow> copy_planes max_bits_per_pixel ps dd')"

section \<open>Zero-copy frame bridge\<close>

text \<open>
  \<^verbatim>\<open>struct GstLibde265FrameRef\<close> and the three functions that create and destroy it:
  \<^verbatim>\<open>gst_libde265_dec_release_frame_ref\<close> (lines 430-439),
  \<^verbatim>\<open>gst_libde265_dec_get_buffer\<close> (lines 441-586) and
  \<^verbatim>\<open>gst_libde265_dec_release_buffer\<close> (lines 588-613), with the hand-over of a
  zero-copy picture in \<^verbatim>\<open>handle_frame\<close> (lines 1093-1105).

  Objects are named by numbers: pictures by their slot, codec frames and buffers by an
  identifier, a FrameRef by the order of its allocation (so that a block that
  \<^verbatim>\<open>g_malloc0\<close> hands out again is still a new FrameRef). The store \<open>refs\<close> holds
  the FrameRefs that are allocated and not yet freed; \<open>user_data\<close> is the per-plane
  user data that the engine keeps for each picture. What the functions do to the host is
  recorded, in order, in \<open>events\<close>.
\<close>

record GstLibde265FrameRef =
  frame :: nat
  buffer :: "nat option"
  mapped :: bool

datatype host_event =
    Malloc_ref nat
  | Frame_map nat
  | Frame_unmap nat
  | Codec_frame_unref nat
  | Buffer_unref nat
  | Free_ref nat
  | Finish_frame nat "nat option"
  | Default_get_buffer nat
  | Default_release_buffer nat
  | Invalid_ref nat

record bridge =
  refs :: "nat \<Rightarrow> GstLibde265FrameRef option"
  next_ref :: nat
  user_data :: "nat \<times> nat \<Rightarrow> nat option"
  events :: "host_event list"
  bridge_dec :: GstLibde265Dec
  held :: "nat set"

text \<open>
  \<open>held\<close> belongs to the engine: the pictures that own a buffer, that is, for which
  \<^verbatim>\<open>get_buffer\<close> has returned non-zero and \<^verbatim>\<open>release_buffer\<close> has not been called
  since. The plugin's functions never read it.

  Releasing a FrameRef that is not in the store (a dangling pointer) is undefined in C and
  is recorded as \<open>Invalid_ref\<close>. \<^verbatim>\<open>gst_buffer_replace (&ref->buffer, NULL)\<close>
  drops a reference only if the field holds a buffer.
\<close>

definition gst_libde265_dec_release_frame_ref :: "nat \<Rightarrow> bridge \<Rightarrow> bridge" where
  "gst_libde265_dec_release_frame_ref r s =
     (case refs s r of
        None \<Rightarrow> s\<lparr>events := events s @ [Invalid_ref r]\<rparr>
      | Some ref \<Rightarrow>
          s\<lparr>events := events s
                 @ (if mapped ref then [Frame_unmap r] else [])
                 @ [Codec_frame_unref (frame ref)]
                 @ (case buffer ref of None \<Rightarrow> [] | Some b \<Rightarrow> [Buffer_unref b])
                 @ [Free_ref r],
            refs := (refs s)(r := None)\<rparr>)"

text \<open>
  What one call of \<^verbatim>\<open>get_buffer\<close> reads from the engine (the image specification) and
  what the host answers during the call. \<open>default_allocation\<close> is whether libde265's
  default \<^verbatim>\<open>get_buffer\<close> finds memory. That routine is not part of this repository:
  when it succeeds it stores its own planes with NULL user data and returns 1, when it
  fails it leaves the picture alone and returns 0.
\<close>

record de265_image_spec =
  spec_width :: int
  spec_height :: int
  spec_alignment :: int
  visible_width :: int
  visible_height :: int
  spec_chroma :: de265_chroma
  spec_bits_per_pixel :: "nat \<Rightarrow> int"

record host_answers =
  get_frame :: "nat option"
  host_fps :: "int \<times> int"
  alloc_output_frame :: "nat option"
  frame_map :: bool
  plane_stride :: "nat \<Rightarrow> int"
  comp_pstride :: int
  comp_height :: int
  plane_data :: "nat \<Rightarrow> int"
  default_allocation :: bool

definition default_get_buffer :: "bool \<Rightarrow> nat \<Rightarrow> bridge \<Rightarrow> int \<times> bridge" where
  "default_get_buffer ok img s =
     (if ok
      then (1, s\<lparr>user_data := (\<lambda>ip. if fst ip = img then None else user_data s ip),
                 events := events s @ [Default_get_buffer img]\<rparr>)
      else (0, s\<lparr>events := events s @ [Default_get_buffer img]\<rparr>))"

text \<open>
  The loop \<^verbatim>\<open>for (i = 0; i < 3; i++)\<close> at the end of \<^verbatim>\<open>get_buffer\<close>, over the
  planes still to do: \<open>False\<close> is \<^verbatim>\<open>goto error\<close>.
\<close>

fun set_image_planes ::
  "de265_image_spec \<Rightarrow> host_answers \<Rightarrow> nat \<Rightarrow> nat \<Rightarrow> nat list \<Rightarrow> bridge \<Rightarrow> bool \<times> bridge" where
  "set_image_planes spec host img r [] s = (True, s)"
| "set_image_planes spec host img r (i # planes) s =
     (if plane_stride host i mod spec_alignment spec \<noteq> 0 then (False, s)
      else if plane_data host i mod spec_alignment spec \<noteq> 0 then (False, s)
      else set_image_planes spec host img r planes
             (s\<lparr>user_data := (user_data s)((img, i) := Some r)\<rparr>))"

text \<open>
  \<^verbatim>\<open>get_buffer\<close> itself. The alignment is positive and the sizes are not negative, so
  that C's \<^verbatim>\<open>/\<close> and \<^verbatim>\<open>%\<close> are \<open>div\<close> and \<open>mod\<close>.
  \<^verbatim>\<open>_gst_libde265_image_available\<close> always returns \<^verbatim>\<open>GST_FLOW_OK\<close>.
\<close>

definition gst_libde265_dec_get_buffer ::
  "de265_image_spec \<Rightarrow> host_answers \<Rightarrow> nat \<Rightarrow> bridge \<Rightarrow> int \<times> bridge" where
  "gst_libde265_dec_get_buffer spec host img s =
     (let fallback = default_get_buffer (default_allocation host) img;
          error = (\<lambda>r s. fallback (gst_libde265_dec_release_frame_ref r s))
      in
      case get_frame host of
        None \<Rightarrow> fallback s
      | Some codec_frame \<Rightarrow>
          let w = (spec_width spec + spec_alignment spec - 1) div spec_alignment spec
                    * spec_alignment spec;
              h = spec_height spec;
              bits = spec_bits_per_pixel spec
          in
          if w \<noteq> visible_width spec \<or> h \<noteq> visible_height spec then fallback s
          else if spec_chroma spec \<noteq> de265_chroma_mono \<and>
                  (bits 0 \<noteq> bits 1 \<or> bits 0 \<noteq> bits 2 \<or> bits 1 \<noteq> bits 2) then fallback s
          else
            let bits_per_pixel = bits 0;
                format = gst_libde265_get_video_format (spec_chroma spec) bits_per_pixel
            in
            if format = GST_VIDEO_FORMAT_UNKNOWN then fallback s
            else if GST_VIDEO_FORMAT_INFO_BITS format \<noteq> bits_per_pixel then fallback s
            else
              let s = s\<lparr>bridge_dec :=
                          snd (gst_libde265_image_available w h (host_fps host) (bridge_dec s))\<rparr>
              in
              case alloc_output_frame host of
                None \<Rightarrow> fallback s
              | Some output_buffer \<Rightarrow>
                  let r = next_ref s;
                      s = s\<lparr>next_ref := Suc r,
                             refs := (refs s)(r \<mapsto>
                               \<lparr>frame = codec_frame, buffer = Some output_buffer, mapped = False\<rparr>),
                             events := events s @ [Malloc_ref r]\<rparr>
                  in
                  if \<not> frame_map host then error r s
                  else
                    let s = s\<lparr>refs := (refs s)(r \<mapsto>
                                 \<lparr>frame = codec_frame, buffer = Some output_buffer, mapped = True\<rparr>),
                               events := events s @ [Frame_map r]\<rparr>
                    in
                    if plane_stride host 0 < w * comp_pstride host then error r s
                    else if comp_height host < h then error r s
                    else
                      case set_image_planes spec host img r [0, 1, 2] s of
                        (False, s) \<Rightarrow> error r s
                      | (True, s) \<Rightarrow> (1, s))"

definition gst_libde265_dec_release_buffer :: "nat \<Rightarrow> bridge \<Rightarrow> bridge" where
  "gst_libde265_dec_release_buffer img s =
     (case user_data s (img, 0) of
        None \<Rightarrow> s\<lparr>events := events s @ [Default_release_buffer img]\<rparr>
      | Some r \<Rightarrow> gst_libde265_dec_release_frame_ref r s)"

text \<open>
  The hand-over in \<^verbatim>\<open>handle_frame\<close> of a picture that \<^verbatim>\<open>de265_get_next_picture\<close>
  returns: with a FrameRef, the buffer moves from the FrameRef to the codec frame, which is
  finished; without one, the copy path runs and touches no FrameRef.
\<close>

definition deliver_picture :: "nat \<Rightarrow> bridge \<Rightarrow> bridge" where
  "deliver_picture img s =
     (case user_data s (img, 0) of
        None \<Rightarrow> s
      | Some r \<Rightarrow>
          (case refs s r of
             None \<Rightarrow> s\<lparr>events := events s @ [Invalid_ref r]\<rparr>
           | Some ref \<Rightarrow>
               s\<lparr>refs := (refs s)(r \<mapsto> ref\<lparr>buffer := None\<rparr>),
                 events := events s @ [Finish_frame (frame ref) (buffer ref)]\<rparr>))"

subsection \<open>Sequences of callbacks\<close>

text \<open>
  The engine's side of the contract, as the specification states it: it asks for a buffer
  only for a picture that owns none (with a positive alignment), it releases and outputs
  only pictures that own one, and it releases each of them once. A step that breaks the
  contract has no successor state.
\<close>

datatype callback =
    Get_buffer de265_image_spec host_answers nat
  | Release_buffer nat
  | Deliver nat

fun callback_step :: "callback \<Rightarrow> bridge \<Rightarrow> bridge option" where
  "callback_step (Get_buffer spec host img) s =
     (if img \<in> held s \<or> spec_alignment spec \<le> 0 then None
      else
        let (ret, s') = gst_libde265_dec_get_buffer spec host img s
        in Some (if ret \<noteq> 0 then s'\<lparr>held := insert img (held s')\<rparr> else s'))"
| "callback_step (Release_buffer img) s =
     (if img \<notin> held s then None
      else Some ((gst_libde265_dec_release_buffer img s)\<lparr>held := held s - {img}\<rparr>))"
| "callback_step (Deliver img) s =
     (if img \<notin> held s then None else Some (deliver_picture img s))"

fun run_callbacks :: "callback list \<Rightarrow> bridge \<Rightarrow> bridge option" where
  "run_callbacks [] s = Some s"
| "run_callbacks (c # cs) s =
     (case callback_step c s of None \<Rightarrow> None | Some s' \<Rightarrow> run_callbacks cs s')"

definition bridge_init :: bridge where
  "bridge_init =
     \<lparr>refs = (\<lambda>r. None), next_ref = 0, user_data = (\<lambda>ip. None), events = [],
      bridge_dec = gst_libde265_dec_init, held = {}\<rparr>"

subsection \<open>What a run leaves behind\<close>

text \<open>
  How often an event occurs in the record of a state, and the facts that hold of every
  state a sequence of callbacks can reach: a FrameRef not yet allocated has no event; one
  in the store is mapped, with one allocation, one map and no unmap or free; one that has
  left the store has one allocation and one free, and as many unmaps as maps; no dangling
  FrameRef is ever used; and the FrameRefs in the store are the plane-0 user data of the
  pictures that own a buffer, one picture each.
\<close>

definition ev_count :: "bridge \<Rightarrow> host_event \<Rightarrow> nat" where
  "ev_count s e = count_list (events s) e"

definition inv_unused :: "bridge \<Rightarrow> bool" where
  "inv_unused s \<longleftrightarrow>
     (\<forall>r\<ge>next_ref s. refs s r = None \<and> ev_count s (Malloc_ref r) = 0 \<and>
        ev_count s (Frame_map r) = 0 \<and> ev_count s (Frame_unmap r) = 0 \<and>
        ev_count s (Free_ref r) = 0)"

definition inv_live :: "bridge \<Rightarrow> bool" where
  "inv_live s \<longleftrightarrow>
     (\<forall>r ref. refs s r = Some ref \<longrightarrow>
        mapped ref \<and> ev_count s (Malloc_ref r) = 1 \<and> ev_count s (Frame_map r) = 1 \<and>
        ev_count s (Frame_unmap r) = 0 \<and> ev_count s (Free_ref r) = 0)"

definition inv_freed :: "bridge \<Rightarrow> bool" where
  "inv_freed s \<longleftrightarrow>
     (\<forall>r<next_ref s. refs s r = None \<longrightarrow>
        ev_count s (Malloc_ref r) = 1 \<and> ev_count s (Free_ref r) = 1 \<and>
        ev_count s (Frame_map r) \<le> 1 \<and> ev_count s (Frame_unmap r) = ev_count s (Frame_map r))"

definition inv_valid :: "bridge \<Rightarrow> bool" where
  "inv_valid s \<longleftrightarrow> (\<forall>r. ev_count s (Invalid_ref r) = 0)"

definition inv_held :: "bridge \<Rightarrow> bool" where
  "inv_held s \<longleftrightarrow>
     (\<forall>img\<in>held s. \<forall>r. user_data s (img, 0) = Some r \<longrightarrow> refs s r \<noteq> None) \<and>
     (\<forall>r. refs s r \<noteq> None \<longrightarrow> (\<exists>img\<in>held s. user_data s (img, 0) = Some r)) \<and>
     (\<forall>img\<in>held s. \<forall>img'\<in>held s. \<forall>r.
        user_data s (img, 0) = Some r \<and> user_data s (img', 0) = Some r \<longrightarrow> img = img')"

definition bridge_inv :: "bridge \<Rightarrow> bool" where
  "bridge_inv s \<longleftrightarrow> inv_unused s \<and> inv_live s \<and> inv_freed s \<and> inv_valid s \<and> inv_held s"

text \<open>
  One call that succeeds without copying: a 64x48 picture in 4:2:0 at 8 bits, aligned to
  16, and a host whose buffer is large enough and aligned.
\<close>

definition example_spec :: de265_image_spec where
  "example_spec =
     \<lparr>spec_width = 64, spec_height = 48, spec_alignment = 16, visible_width = 64,
      visible_height = 48, spec_chroma = de265_chroma_420, spec_bits_per_pixel = (\<lambda>c. 8)\<rparr>"

definition example_host :: host_answers where
  "example_host =
     \<lparr>get_frame = Some 7, host_fps = (0, 1), alloc_output_frame = Some 9, frame_map = True,
      plane_stride = (\<lambda>i. 64), comp_pstride = 1, comp_height = 48, plane_data = (\<lambda>i. 4096),
      default_allocation = True\<rparr>"

section \<open>Theorems\<close>

subsection \<open>Pixel format resolver\<close>

text \<open>
  C4. The resolver is a function of (chroma layout, bit depth) alone. For 4:2:0, 4:2:2 and
  4:4:4 it returns the 8-bit planar format at depth 8 and one 10-bit-storage format at
  every depth from 9 to 16 (so the same one at 9, at 10 and at every depth in (10,16]);
  monochrome resolves to the 8-bit gray format and to nothing else, whatever the depth;
  every other combination (a colour layout at a depth below 8 or above 16, or a chroma
  value that is none of the four layouts) resolves to the unknown format.
\<close>

theorem get_video_format_table:
  "gst_libde265_get_video_format de265_chroma_mono d = GST_VIDEO_FORMAT_GRAY8 \<and>
   gst_libde265_get_video_format de265_chroma_420 d =
     (if d = 8 then GST_VIDEO_FORMAT_I420
      else if 9 \<le> d \<and> d \<le> 16 then GST_VIDEO_FORMAT_I420_10LE
      else GST_VIDEO_FORMAT_UNKNOWN) \<and>
   gst_libde265_get_video_format de265_chroma_422 d =
     (if d = 8 then GST_VIDEO_FORMAT_Y42B
      else if 9 \<le> d \<and> d \<le> 16 then GST_VIDEO_FORMAT_I422_10LE
      else GST_VIDEO_FORMAT_UNKNOWN) \<and>
   gst_libde265_get_video_format de265_chroma_444 d =
     (if d = 8 then GST_VIDEO_FORMAT_Y444
      else if 9 \<le> d \<and> d \<le> 16 then GST_VIDEO_FORMAT_Y444_10LE
      else GST_VIDEO_FORMAT_UNKNOWN) \<and>
   gst_libde265_get_video_format de265_chroma_other d = GST_VIDEO_FORMAT_UNKNOWN"
  by (simp add: switch_bits_per_pixel_def)

subsection \<open>Parameter-set ingestor\<close>

lemma length_be16 [simp]: "length (be16 n) = 2"
  by (simp add: be16_def)

lemma length_encode_unit [simp]: "length (encode_unit u) = 2 + length u"
  by (simp add: encode_unit_def)

lemma read_be16_be16:
  assumes "n < 65536"
  shows "read_be16 (pre @ be16 n @ post) (length pre) = n"
proof -
  have hi: "uint (of_nat (n div 256) :: byte) = int (n div 256)"
    using assms by (simp add: uint_nat unat_of_nat take_bit_nat_eq_self)
  have lo: "uint (of_nat (n mod 256) :: byte) = int (n mod 256)"
    by (simp add: uint_nat unat_of_nat take_bit_nat_eq_self)
  have "push_bit 8 (int (n div 256)) OR int (n mod 256) = int (n mod 256) + push_bit 8 (int (n div 256))"
    using concat_bit_eq [of 8 "int (n mod 256)" "int (n div 256)"]
    by (simp add: concat_bit_def take_bit_eq_mod or.commute)
  also have "\<dots> = int n mod 256 + int n div 256 * 256"
    by (simp add: push_bit_eq_mult of_nat_mod of_nat_div)
  also have "\<dots> = int n"
    by simp
  finally have "push_bit 8 (int (n div 256)) OR int (n mod 256) = int n" .
  then show ?thesis
    by (simp add: read_be16_def be16_def nth_append hi lo)
qed

text \<open>
  Below \<open>2 ^ 31\<close> the \<^verbatim>\<open>int\<close> arithmetic is exact, and a comparison of a sum with the
  size of a buffer shorter than \<open>2 ^ 31\<close> bytes is the comparison of the numbers, also
  when the sum has wrapped around.
\<close>

lemma c_int_id:
  assumes "0 \<le> x" "x < 2 ^ 31"
  shows "c_int x = x"
  using assms by (simp add: c_int_def)

lemma gsize_test:
  assumes "n < 2 ^ 31" "0 \<le> x" "x < 2 ^ 32"
  shows "(n < gsize_of_int (c_int x)) = (int n < x)"
proof (cases "x < 2 ^ 31")
  case True
  then have "c_int x = x"
    using assms by (simp add: c_int_id)
  moreover have "x mod 2 ^ 64 = x"
    using assms True by simp
  ultimately have "gsize_of_int (c_int x) = nat x"
    by (simp add: gsize_of_int_def)
  then show ?thesis
    using assms by (simp; linarith)
next
  case False
  then have "(x + 2 ^ 31) mod 2 ^ 32 = x + 2 ^ 31 - 2 ^ 32"
    using assms by (intro int_mod_pos_eq [where q = 1]) simp_all
  then have c: "c_int x = x - 2 ^ 32"
    by (simp add: c_int_def)
  have "(x - 2 ^ 32) mod 2 ^ 64 = x - 2 ^ 32 + 2 ^ 64"
    using assms False by (intro int_mod_pos_eq [where q = "- 1"]) simp_all
  then have "gsize_of_int (c_int x) = nat (x - 2 ^ 32 + 2 ^ 64)"
    by (simp add: gsize_of_int_def c)
  then show ?thesis
    using assms False by (simp; linarith)
qed

lemma gsize_test_nat:
  assumes "length data < 2 ^ 31" "p \<le> length data" "k < 2 ^ 31"
  shows "(length data < gsize_of_int (c_int (int p + int k))) = (length data < p + k)"
proof -
  have "(length data < gsize_of_int (c_int (int p + int k))) = (int (length data) < int p + int k)"
    using assms by (intro gsize_test) simp_all
  then show ?thesis by linarith
qed

lemma nal_loop_units:
  assumes ok: "\<forall>cs c. de265_isOK (eng cs c)"
    and sz: "\<forall>u\<in>set us. length u < 65536"
    and big: "length (pre @ concat (map encode_unit us) @ post) < 2 ^ 31"
  shows "nal_loop eng (pre @ concat (map encode_unit us) @ post) (length us) (int (length pre), calls)
       = Inr (int (length pre + length (concat (map encode_unit us))), calls @ map param_set_NAL us)"
  using sz big
proof (induction us arbitrary: pre calls)
  case Nil
  then show ?case by simp
next
  case (Cons u us)
  define data where "data = pre @ concat (map encode_unit (u # us)) @ post"
  have big: "length data < 2 ^ 31"
    using Cons.prems(2) by (simp add: data_def)
  have lu: "length u < 65536"
    using Cons.prems(1) by simp
  have data1: "data = pre @ be16 (length u) @ (u @ concat (map encode_unit us) @ post)"
    by (simp add: data_def encode_unit_def)
  have data2: "data = (pre @ encode_unit u) @ concat (map encode_unit us) @ post"
    by (simp add: data_def)
  have rd: "read_be16 data (length pre) = length u"
    unfolding data1 using lu by (intro read_be16_be16)
  have tk: "take (length u) (drop (length pre + 2) data) = u"
    unfolding data1 by simp
  have len: "length pre + 2 + length u \<le> length data"
    unfolding data1 by simp
  have t1: "(length data < gsize_of_int (c_int (int (length pre) + 2))) = False"
    using gsize_test_nat [OF big, of "length pre" 2] len by simp
  have t2: "(length data < gsize_of_int (c_int (int (length pre) + 2 + int (length u)))) = False"
    using gsize_test_nat [OF big, of "length pre" "2 + length u"] len lu by (simp add: add.assoc)
  have p: "c_int (int (length pre) + 2 + int (length u)) = int (length pre + 2 + length u)"
    using len big by (subst c_int_id) simp_all
  have n2: "nat (int (length pre) + 2) = length pre + 2"
    by simp
  have L: "length (concat (map encode_unit (u # us))) = 2 + length u + length (concat (map encode_unit us))"
    by simp
  have IH: "nal_loop eng data (length us) (int (length pre + 2 + length u), calls @ [param_set_NAL u])
      = Inr (int (length pre + 2 + length u + length (concat (map encode_unit us))),
             calls @ param_set_NAL u # map param_set_NAL us)"
    unfolding data2 using Cons.IH [of "pre @ encode_unit u" "calls @ [param_set_NAL u]"] Cons.prems big
    by (simp add: add.assoc data2)
  have "nal_loop eng data (Suc (length us)) (int (length pre), calls)
      = Inr (int (length pre + 2 + length u + length (concat (map encode_unit us))),
             calls @ param_set_NAL u # map param_set_NAL us)"
    unfolding nal_loop.simps Let_def nat_int rd t1 t2 unfolding p n2 tk
    using IH ok by (simp add: param_set_NAL_def)
  then show ?case
    unfolding data_def L by (simp add: add.assoc)
qed

lemma nal_loop_truncated:
  assumes ok: "\<forall>cs c. de265_isOK (eng cs c)"
    and sz: "\<forall>u\<in>set us. length u < 65536"
    and m: "m < length (concat (map encode_unit us))"
    and big: "length (pre @ take m (concat (map encode_unit us))) < 2 ^ 31"
  shows "\<exists>e k. nal_loop eng (pre @ take m (concat (map encode_unit us))) (length us) (int (length pre), calls)
            = Inl (e, calls @ map param_set_NAL (take k us))
          \<and> e \<in> {Buffer_underrun_in_extra_nal_header, Buffer_underrun_in_extra_nal}"
  using sz m big
proof (induction us arbitrary: pre calls m)
  case Nil
  then show ?case by simp
next
  case (Cons u us)
  define rest where "rest = concat (map encode_unit us)"
  define data where "data = pre @ take m (concat (map encode_unit (u # us)))"
  have big: "length data < 2 ^ 31"
    using Cons.prems(3) by (simp add: data_def)
  have pre: "length pre \<le> length data"
    by (simp add: data_def)
  have cc: "concat (map encode_unit (u # us)) = be16 (length u) @ u @ rest"
    by (simp add: rest_def encode_unit_def)
  have lu: "length u < 65536"
    using Cons.prems by simp
  have n2: "nat (int (length pre) + 2) = length pre + 2"
    by simp
  have g1: "(length data < gsize_of_int (c_int (int (length pre) + 2))) = (length data < length pre + 2)"
    using gsize_test_nat [OF big pre, of 2] by simp
  have g2: "(length data < gsize_of_int (c_int (int (length pre) + 2 + int (length u))))
      = (length data < length pre + 2 + length u)"
    using gsize_test_nat [OF big pre, of "2 + length u"] lu by (simp add: add.assoc)
  consider (hdr) "m < 2" | (payload) "2 \<le> m" "m < 2 + length u" | (whole) "2 + length u \<le> m"
    by linarith
  then have "\<exists>e k. nal_loop eng data (Suc (length us)) (int (length pre), calls)
            = Inl (e, calls @ map param_set_NAL (take k (u # us)))
          \<and> e \<in> {Buffer_underrun_in_extra_nal_header, Buffer_underrun_in_extra_nal}"
  proof cases
    case hdr
    then have "length data < length pre + 2"
      by (simp add: data_def)
    then have "nal_loop eng data (Suc (length us)) (int (length pre), calls)
        = Inl (Buffer_underrun_in_extra_nal_header, calls @ map param_set_NAL (take 0 (u # us)))"
      unfolding nal_loop.simps g1 by simp
    then show ?thesis by blast
  next
    case payload
    have data1: "data = pre @ be16 (length u) @ take (m - 2) (u @ rest)"
      unfolding data_def cc using payload by simp
    have rd: "read_be16 data (length pre) = length u"
      unfolding data1 using lu by (intro read_be16_be16)
    have len: "length pre + 2 \<le> length data" "length data < length pre + 2 + length u"
      using payload unfolding data1 by simp_all
    have "nal_loop eng data (Suc (length us)) (int (length pre), calls)
        = Inl (Buffer_underrun_in_extra_nal, calls @ map param_set_NAL (take 0 (u # us)))"
      unfolding nal_loop.simps Let_def nat_int rd g1 g2 using len by simp
    then show ?thesis by blast
  next
    case whole
    define m' where "m' = m - (2 + length u)"
    have m': "m' < length (concat (map encode_unit us))"
      using Cons.prems(2) whole by (simp add: m'_def)
    have data1: "data = pre @ be16 (length u) @ (u @ take m' rest)"
      unfolding data_def cc using whole by (simp add: m'_def)
    have data2: "data = (pre @ encode_unit u) @ take m' (concat (map encode_unit us))"
      unfolding data1 by (simp add: encode_unit_def rest_def)
    have rd: "read_be16 data (length pre) = length u"
      unfolding data1 using lu by (intro read_be16_be16)
    have tk: "take (length u) (drop (length pre + 2) data) = u"
      unfolding data1 by simp
    have len: "length pre + 2 + length u \<le> length data"
      unfolding data1 by simp
    have p: "c_int (int (length pre) + 2 + int (length u)) = int (length pre + 2 + length u)"
      using len big by (subst c_int_id) simp_all
    have big2: "length ((pre @ encode_unit u) @ take m' (concat (map encode_unit us))) < 2 ^ 31"
      using big unfolding data2 .
    from Cons.IH [of m' "pre @ encode_unit u" "calls @ [param_set_NAL u]"] Cons.prems(1) m' big2
    obtain e k where IH: "nal_loop eng data (length us) (int (length pre + 2 + length u), calls @ [param_set_NAL u])
        = Inl (e, calls @ param_set_NAL u # map param_set_NAL (take k us))"
       and e: "e \<in> {Buffer_underrun_in_extra_nal_header, Buffer_underrun_in_extra_nal}"
      unfolding data2 by (auto simp: add.assoc)
    have "nal_loop eng data (Suc (length us)) (int (length pre), calls)
        = Inl (e, calls @ map param_set_NAL (take (Suc k) (u # us)))"
      unfolding nal_loop.simps Let_def nat_int rd g1 g2 unfolding p n2 tk
      using len IH ok by (simp add: param_set_NAL_def)
    with e show ?thesis by blast
  qed
  then show ?case
    unfolding data_def by simp
qed

lemma length_encode_array [simp]:
  "length (encode_array a) = 3 + length (concat (map encode_unit (snd a)))"
  by (simp add: encode_array_def)

lemma param_set_loop_arrays:
  assumes ok: "\<forall>cs c. de265_isOK (eng cs c)"
    and wf: "fits_fields as"
    and big: "length (pre @ concat (map encode_array as) @ post) < 2 ^ 31"
  shows "param_set_loop eng (pre @ concat (map encode_array as) @ post) (length as) (int (length pre), calls)
       = Inr (int (length pre + length (concat (map encode_array as))),
              calls @ map param_set_NAL (concat (map snd as)))"
  using wf big
proof (induction as arbitrary: pre calls)
  case Nil
  then show ?case by simp
next
  case (Cons a as)
  define us where "us = snd a"
  define U where "U = concat (map encode_unit us)"
  define rest where "rest = concat (map encode_array as) @ post"
  define data where "data = pre @ concat (map encode_array (a # as)) @ post"
  have big: "length data < 2 ^ 31"
    using Cons.prems(2) by (simp add: data_def)
  have us: "length us < 65536" "\<forall>u\<in>set us. length u < 65536"
    using Cons.prems(1) by (simp_all add: us_def fits_fields_def)
  have wf': "fits_fields as"
    using Cons.prems(1) by (simp add: fits_fields_def)
  have data1: "data = (pre @ [fst a]) @ be16 (length us) @ (U @ rest)"
    by (simp add: data_def encode_array_def us_def U_def rest_def)
  have data2: "data = (pre @ fst a # be16 (length us)) @ concat (map encode_unit us) @ rest"
    by (simp add: data1 U_def)
  have data3: "data = (pre @ encode_array a) @ concat (map encode_array as) @ post"
    by (simp add: data_def)
  have len: "length pre + 3 \<le> length data"
    unfolding data1 by simp
  have t: "(length data < gsize_of_int (c_int (int (length pre) + 3))) = False"
    using gsize_test_nat [OF big, of "length pre" 3] len by simp
  have p: "c_int (int (length pre) + 3) = int (length (pre @ fst a # be16 (length us)))"
    using len big by (subst c_int_id) simp_all
  have n1: "nat (int (length pre) + 1) = length pre + 1"
    by simp
  have rd: "read_be16 data (length pre + 1) = length us"
    using read_be16_be16 [OF us(1), of "pre @ [fst a]" "U @ rest"] unfolding data1 by simp
  have inner: "nal_loop eng data (length us) (int (length (pre @ fst a # be16 (length us))), calls)
      = Inr (int (length pre + 3 + length U), calls @ map param_set_NAL us)"
    using nal_loop_units [OF ok us(2), of "pre @ fst a # be16 (length us)" rest calls] big
    unfolding data2 U_def by (simp add: add.assoc)
  have IH: "param_set_loop eng data (length as) (int (length pre + 3 + length U), calls @ map param_set_NAL us)
      = Inr (int (length pre + 3 + length U + length (concat (map encode_array as))),
             calls @ map param_set_NAL us @ map param_set_NAL (concat (map snd as)))"
    using Cons.IH [OF wf', of "pre @ encode_array a" "calls @ map param_set_NAL us"] big
    unfolding data3 by (simp add: add.assoc U_def us_def)
  have "param_set_loop eng data (Suc (length as)) (int (length pre), calls)
      = Inr (int (length pre + 3 + length U + length (concat (map encode_array as))),
             calls @ map param_set_NAL us @ map param_set_NAL (concat (map snd as)))"
    unfolding param_set_loop.simps Let_def n1 rd t unfolding p inner
    using IH by simp
  then show ?case
    unfolding data_def by (simp add: add.assoc U_def us_def)
qed

lemma param_set_loop_truncated:
  assumes ok: "\<forall>cs c. de265_isOK (eng cs c)"
    and wf: "fits_fields as"
    and m: "m < length (concat (map encode_array as))"
    and big: "length (pre @ take m (concat (map encode_array as))) < 2 ^ 31"
  shows "\<exists>e k. param_set_loop eng (pre @ take m (concat (map encode_array as))) (length as) (int (length pre), calls)
            = Inl (e, calls @ map param_set_NAL (take k (concat (map snd as))))
          \<and> e \<in> {Buffer_underrun_in_extra_header, Buffer_underrun_in_extra_nal_header,
                  Buffer_underrun_in_extra_nal}"
  using wf m big
proof (induction as arbitrary: pre calls m)
  case Nil
  then show ?case by simp
next
  case (Cons a as)
  define us where "us = snd a"
  define U where "U = concat (map encode_unit us)"
  define rest where "rest = concat (map encode_array as)"
  define data where "data = pre @ take m (concat (map encode_array (a # as)))"
  have big: "length data < 2 ^ 31"
    using Cons.prems(3) by (simp add: data_def)
  have pre: "length pre \<le> length data"
    by (simp add: data_def)
  have us: "length us < 65536" "\<forall>u\<in>set us. length u < 65536"
    using Cons.prems(1) by (simp_all add: us_def fits_fields_def)
  have wf': "fits_fields as"
    using Cons.prems(1) by (simp add: fits_fields_def)
  have cc: "concat (map encode_array (a # as)) = fst a # be16 (length us) @ U @ rest"
    by (simp add: encode_array_def us_def U_def rest_def)
  have g: "(length data < gsize_of_int (c_int (int (length pre) + 3))) = (length data < length pre + 3)"
    using gsize_test_nat [OF big pre, of 3] by simp
  have n1: "nat (int (length pre) + 1) = length pre + 1"
    by simp
  consider (hdr) "m < 3" | (units) "3 \<le> m" "m < 3 + length U" | (whole) "3 + length U \<le> m"
    by linarith
  then have "\<exists>e k. param_set_loop eng data (Suc (length as)) (int (length pre), calls)
            = Inl (e, calls @ map param_set_NAL (take k (concat (map snd (a # as)))))
          \<and> e \<in> {Buffer_underrun_in_extra_header, Buffer_underrun_in_extra_nal_header,
                  Buffer_underrun_in_extra_nal}"
  proof cases
    case hdr
    then have "length data < length pre + 3"
      by (simp add: data_def)
    then have "param_set_loop eng data (Suc (length as)) (int (length pre), calls)
        = Inl (Buffer_underrun_in_extra_header, calls @ map param_set_NAL (take 0 (concat (map snd (a # as)))))"
      unfolding param_set_loop.simps g by simp
    then show ?thesis by blast
  next
    case units
    define m' where "m' = m - 3"
    have m': "m' < length (concat (map encode_unit us))"
      using units by (simp add: m'_def U_def)
    have tk: "take m (fst a # be16 (length us) @ U @ rest) = fst a # be16 (length us) @ take m' U"
      using units by (cases m) (simp_all add: m'_def)
    have data1: "data = (pre @ [fst a]) @ be16 (length us) @ take m' U"
      unfolding data_def cc tk by simp
    have data2: "data = (pre @ fst a # be16 (length us)) @ take m' (concat (map encode_unit us))"
      by (simp add: data1 U_def)
    have len: "length pre + 3 \<le> length data"
      unfolding data1 by simp
    have p: "c_int (int (length pre) + 3) = int (length (pre @ fst a # be16 (length us)))"
      using len big by (subst c_int_id) simp_all
    have rd: "read_be16 data (length pre + 1) = length us"
      using read_be16_be16 [OF us(1), of "pre @ [fst a]" "take m' U"] unfolding data1 by simp
    have big2: "length ((pre @ fst a # be16 (length us)) @ take m' (concat (map encode_unit us))) < 2 ^ 31"
      using big unfolding data2 .
    from nal_loop_truncated [OF ok us(2) m' big2, of calls]
    obtain e k where inner: "nal_loop eng data (length us) (int (length (pre @ fst a # be16 (length us))), calls)
        = Inl (e, calls @ map param_set_NAL (take k us))"
       and e: "e \<in> {Buffer_underrun_in_extra_nal_header, Buffer_underrun_in_extra_nal}"
      unfolding data2 by auto
    have "take k us = take (min k (length us)) (concat (map snd (a # as)))"
      by (simp add: us_def min_def)
    then have "param_set_loop eng data (Suc (length as)) (int (length pre), calls)
        = Inl (e, calls @ map param_set_NAL (take (min k (length us)) (concat (map snd (a # as)))))"
      unfolding param_set_loop.simps Let_def n1 rd g unfolding p inner using len by simp
    with e show ?thesis by blast
  next
    case whole
    define m' where "m' = m - (3 + length U)"
    have m': "m' < length (concat (map encode_array as))"
      using Cons.prems(2) whole by (simp add: m'_def U_def us_def)
    have tk: "take m (fst a # be16 (length us) @ U @ rest) = fst a # be16 (length us) @ U @ take m' rest"
      using whole by (cases m) (simp_all add: m'_def)
    have data1: "data = (pre @ [fst a]) @ be16 (length us) @ (U @ take m' rest)"
      unfolding data_def cc tk by simp
    have data2: "data = (pre @ fst a # be16 (length us)) @ concat (map encode_unit us) @ take m' rest"
      by (simp add: data1 U_def)
    have data3: "data = (pre @ encode_array a) @ take m' (concat (map encode_array as))"
      by (simp add: data1 encode_array_def U_def us_def rest_def)
    have len: "length pre + 3 \<le> length data"
      unfolding data1 by simp
    have p: "c_int (int (length pre) + 3) = int (length (pre @ fst a # be16 (length us)))"
      using len big by (subst c_int_id) simp_all
    have rd: "read_be16 data (length pre + 1) = length us"
      using read_be16_be16 [OF us(1), of "pre @ [fst a]" "U @ take m' rest"] unfolding data1 by simp
    have big2: "length ((pre @ fst a # be16 (length us)) @ concat (map encode_unit us) @ take m' rest) < 2 ^ 31"
      using big unfolding data2 .
    have inner: "nal_loop eng data (length us) (int (length (pre @ fst a # be16 (length us))), calls)
        = Inr (int (length pre + 3 + length U), calls @ map param_set_NAL us)"
      using nal_loop_units [OF ok us(2), of "pre @ fst a # be16 (length us)" "take m' rest" calls] big2
      unfolding data2 U_def by (simp add: add.assoc)
    have big3: "length ((pre @ encode_array a) @ take m' (concat (map encode_array as))) < 2 ^ 31"
      using big unfolding data3 .
    from Cons.IH [OF wf' m' big3, of "calls @ map param_set_NAL us"]
    obtain e k where IH: "param_set_loop eng data (length as)
          (int (length pre + 3 + length U), calls @ map param_set_NAL us)
        = Inl (e, calls @ map param_set_NAL us @ map param_set_NAL (take k (concat (map snd as))))"
       and e: "e \<in> {Buffer_underrun_in_extra_header, Buffer_underrun_in_extra_nal_header,
                    Buffer_underrun_in_extra_nal}"
      unfolding data3 by (auto simp: add.assoc U_def us_def)
    have "us @ take k (concat (map snd as)) = take (length us + k) (concat (map snd (a # as)))"
      by (simp add: us_def)
    then have "param_set_loop eng data (Suc (length as)) (int (length pre), calls)
        = Inl (e, calls @ map param_set_NAL (take (length us + k) (concat (map snd (a # as)))))"
      unfolding param_set_loop.simps Let_def n1 rd g unfolding p inner
      using len IH by (simp flip: map_append)
    with e show ?thesis by blast
  qed
  then show ?case
    unfolding data_def by simp
qed

text \<open>
  Beyond that range the position wraps around: a sum that reaches \<open>2 ^ 31\<close> is a
  negative \<^verbatim>\<open>int\<close>, compares as a size above any buffer's, and ends the parse with an
  underrun error although the bytes are there.
\<close>

lemma param_set_loop_wraps:
  assumes "2 ^ 31 \<le> pos + 3" "pos + 3 < 2 ^ 32" "length data < 2 ^ 63"
  shows "param_set_loop eng data (Suc n) (pos, calls) = Inl (Buffer_underrun_in_extra_header, calls)"
proof -
  have "(pos + 3 + 2 ^ 31) mod 2 ^ 32 = pos + 3 + 2 ^ 31 - 2 ^ 32"
    using assms by (intro int_mod_pos_eq [where q = 1]) simp_all
  then have c: "c_int (pos + 3) = pos + 3 - 2 ^ 32"
    by (simp add: c_int_def)
  have "(pos + 3 - 2 ^ 32) mod 2 ^ 64 = pos + 3 - 2 ^ 32 + 2 ^ 64"
    using assms by (intro int_mod_pos_eq [where q = "- 1"]) simp_all
  then have "gsize_of_int (c_int (pos + 3)) = nat (pos + 3 - 2 ^ 32 + 2 ^ 64)"
    by (simp add: gsize_of_int_def c)
  then have "length data < gsize_of_int (c_int (pos + 3))"
    using assms by (simp; linarith)
  then show ?thesis
    by simp
qed

text \<open>The decode loop ends with \<^verbatim>\<open>return TRUE\<close> on an engine that settles.\<close>

lemma decode_loop_settles:
  assumes "\<forall>k<n. de265_isOK (fst (answer (j + k))) \<and> snd (answer (j + k)) \<noteq> 0"
    and "fst (answer (j + n)) \<in> {DE265_ERROR_IMAGE_BUFFER_FULL, DE265_ERROR_WAITING_FOR_INPUT_DATA} \<or>
         de265_isOK (fst (answer (j + n))) \<and> snd (answer (j + n)) = 0"
  shows "decode_loop answer j = Some Return_TRUE"
  using assms
proof (induction n arbitrary: j)
  case 0
  then show ?case
    by (subst decode_loop.simps) (auto simp: Let_def)
next
  case (Suc n)
  have now: "de265_isOK (fst (answer j))" "snd (answer j) \<noteq> 0"
    using Suc.prems(1) [rule_format, of 0] by simp_all
  then have no: "fst (answer j) \<noteq> DE265_ERROR_IMAGE_BUFFER_FULL"
    "fst (answer j) \<noteq> DE265_ERROR_WAITING_FOR_INPUT_DATA"
    by (auto simp: de265_isOK_def DE265_OK_def DE265_ERROR_IMAGE_BUFFER_FULL_def
        DE265_ERROR_WAITING_FOR_INPUT_DATA_def)
  have nxt: "decode_loop answer (j + 1) = Some Return_TRUE"
  proof (rule Suc.IH)
    show "\<forall>k<n. de265_isOK (fst (answer (j + 1 + k))) \<and> snd (answer (j + 1 + k)) \<noteq> 0"
    proof (intro allI impI)
      fix k assume "k < n"
      then show "de265_isOK (fst (answer (j + 1 + k))) \<and> snd (answer (j + 1 + k)) \<noteq> 0"
        using Suc.prems(1) [rule_format, of "Suc k"] by simp
    qed
    show "fst (answer (j + 1 + n)) \<in> {DE265_ERROR_IMAGE_BUFFER_FULL, DE265_ERROR_WAITING_FOR_INPUT_DATA} \<or>
          de265_isOK (fst (answer (j + 1 + n))) \<and> snd (answer (j + 1 + n)) = 0"
      using Suc.prems(2) by simp
  qed
  from nxt have "decode_loop answer (Suc j) = Some Return_TRUE"
    by simp
  then show ?case
    by (subst decode_loop.simps) (simp add: Let_def now no)
qed

lemma finish_settles:
  assumes "v2 \<or> decode_settles dcd"
  shows "(if v2 then Some Return_TRUE else decode_loop (dcd calls) 0) = Some Return_TRUE"
proof (cases v2)
  case True
  then show ?thesis by simp
next
  case False
  with assms obtain n where
    "\<forall>k<n. de265_isOK (fst (dcd calls k)) \<and> snd (dcd calls k) \<noteq> 0"
    "fst (dcd calls n) \<in> {DE265_ERROR_IMAGE_BUFFER_FULL, DE265_ERROR_WAITING_FOR_INPUT_DATA} \<or>
     de265_isOK (fst (dcd calls n)) \<and> snd (dcd calls n) = 0"
    unfolding decode_settles_def by blast
  then have "decode_loop (dcd calls) 0 = Some Return_TRUE"
    by (intro decode_loop_settles [of n]) simp_all
  with False show ?thesis by simp
qed

lemma waiting_decoder_settles: "decode_settles waiting_decoder"
  unfolding decode_settles_def
  by (intro allI exI [of _ 0]) (simp add: waiting_decoder_def)

text \<open>
  What the function does with a record laid out as the specification says, and with the
  same record cut short. Both facts are about any buffer shorter than \<open>2 ^ 31\<close> bytes,
  the range of the \<^verbatim>\<open>int\<close> that holds the position.
\<close>

lemma set_format_record:
  assumes ok: "\<forall>cs c. de265_isOK (eng cs c)"
    and hdr: "length hdr = 23" "hdr ! 0 \<noteq> 0 \<or> hdr ! 1 \<noteq> 0 \<or> hdr ! 2 > 1"
    and cnt: "unat (hdr ! 22) = length arrays"
    and wf: "fits_fields arrays"
    and big: "length (hdr @ encode_arrays arrays @ rest) < 2 ^ 31"
  shows "gst_libde265_dec_set_format v2 eng dcd (hdr @ encode_arrays arrays @ rest) dec =
      ((if v2 then Some Return_TRUE
        else decode_loop (dcd (ctx dec @ map param_set_NAL (concat (map snd arrays)) @ [de265_push_end_of_NAL])) 0),
       (if hdr ! 0 \<noteq> 0
        then dec\<lparr>codec_data := hdr @ encode_arrays arrays @ rest, mode := GST_TYPE_LIBDE265_DEC_PACKETIZED,
                 warnings := warnings dec @ [Unsupported_extra_data_version (hdr ! 0)]\<rparr>
        else dec\<lparr>codec_data := hdr @ encode_arrays arrays @ rest, mode := GST_TYPE_LIBDE265_DEC_PACKETIZED\<rparr>)
       \<lparr>length_size := uint (hdr ! 21 AND 3) + 1,
        ctx := ctx dec @ map param_set_NAL (concat (map snd arrays)) @ [de265_push_end_of_NAL]\<rparr>)"
proof -
  define data where "data = hdr @ encode_arrays arrays @ rest"
  have hv: "is_hvcC data" and sz: "length data > 22"
    and b: "data ! 0 = hdr ! 0" "data ! 21 = hdr ! 21" "data ! 22 = hdr ! 22"
    using hdr by (simp_all add: is_hvcC_def data_def nth_append)
  have "param_set_loop eng data (length arrays) (int (length hdr), calls)
      = Inr (int (length hdr + length (encode_arrays arrays)), calls @ map param_set_NAL (concat (map snd arrays)))" for calls
    using param_set_loop_arrays [OF ok wf, of hdr rest calls] big
    by (simp add: data_def encode_arrays_def)
  then have loop: "param_set_loop eng data (length arrays) (23, calls)
      = Inr (int (23 + length (encode_arrays arrays)), calls @ map param_set_NAL (concat (map snd arrays)))" for calls
    using hdr(1) by simp
  show ?thesis
    unfolding data_def [symmetric]
    using hv sz by (simp add: gst_libde265_dec_set_format_def Let_def b cnt loop)
qed

lemma set_format_truncated:
  assumes ok: "\<forall>cs c. de265_isOK (eng cs c)"
    and hdr: "length hdr = 23" "hdr ! 0 \<noteq> 0 \<or> hdr ! 1 \<noteq> 0 \<or> hdr ! 2 > 1"
    and cnt: "unat (hdr ! 22) = length arrays"
    and wf: "fits_fields arrays"
    and m: "m < length (encode_arrays arrays)"
    and big: "length (hdr @ take m (encode_arrays arrays)) < 2 ^ 31"
  shows "\<exists>e k. fst (gst_libde265_dec_set_format v2 eng dcd (hdr @ take m (encode_arrays arrays)) dec)
              = Some (Return_FALSE e) \<and>
            e \<in> underrun_errors \<and>
            ctx (snd (gst_libde265_dec_set_format v2 eng dcd (hdr @ take m (encode_arrays arrays)) dec))
              = ctx dec @ map param_set_NAL (take k (concat (map snd arrays)))"
proof -
  define data where "data = hdr @ take m (encode_arrays arrays)"
  have hv: "is_hvcC data" and sz: "length data > 22"
    and b: "data ! 0 = hdr ! 0" "data ! 21 = hdr ! 21" "data ! 22 = hdr ! 22"
    using hdr by (simp_all add: is_hvcC_def data_def nth_append)
  from param_set_loop_truncated [OF ok wf, of m hdr "ctx dec"] m big
  have "\<exists>e k. param_set_loop eng data (length arrays) (int (length hdr), ctx dec)
      = Inl (e, ctx dec @ map param_set_NAL (take k (concat (map snd arrays)))) \<and> e \<in> underrun_errors"
    by (simp add: data_def encode_arrays_def underrun_errors_def)
  then obtain e k where loop: "param_set_loop eng data (length arrays) (23, ctx dec)
      = Inl (e, ctx dec @ map param_set_NAL (take k (concat (map snd arrays))))" and e: "e \<in> underrun_errors"
    using hdr(1) by auto
  have "fst (gst_libde265_dec_set_format v2 eng dcd data dec) = Some (Return_FALSE e) \<and>
        ctx (snd (gst_libde265_dec_set_format v2 eng dcd data dec))
          = ctx dec @ map param_set_NAL (take k (concat (map snd arrays)))"
    using hv sz by (simp add: gst_libde265_dec_set_format_def Let_def b cnt loop)
  with e show ?thesis
    unfolding data_def by blast
qed

text \<open>
  C1. Take a record laid out as the specification says: 23 header bytes that do not start
  with a start code, byte 22 the number of arrays, then the arrays (each with fewer than
  65536 units of fewer than 65536 bytes, as the 2-byte fields allow), then any trailing
  bytes; the whole shorter than \<open>2 ^ 31\<close> bytes, the range of the \<^verbatim>\<open>int\<close> that holds
  the position. With an engine that accepts what it is given and on which the decode loop
  settles (where that loop is compiled), \<^verbatim>\<open>set_format\<close> stores Packetized mode and the
  length-prefix size (byte 21 AND 3) + 1, pushes exactly the units of the record, array by
  array and unit by unit, each with its own length and nothing else before the end-of-NAL
  marker, and returns TRUE. Cut the same record short anywhere after the header (so that
  some array header, unit header or unit payload ends beyond the buffer) and it posts one
  of the three buffer-underrun errors and returns FALSE, having pushed only whole units
  that precede the cut: no byte of a partial unit.
\<close>

theorem set_format_parameter_sets:
  assumes ok: "\<forall>cs c. de265_isOK (eng cs c)"
    and dcd: "v2 \<or> decode_settles dcd"
    and hdr: "length hdr = 23" "hdr ! 0 \<noteq> 0 \<or> hdr ! 1 \<noteq> 0 \<or> hdr ! 2 > 1"
    and cnt: "unat (hdr ! 22) = length arrays"
    and wf: "fits_fields arrays"
    and big: "length (hdr @ encode_arrays arrays @ rest) < 2 ^ 31"
  shows "(fst (gst_libde265_dec_set_format v2 eng dcd (hdr @ encode_arrays arrays @ rest) dec)
            = Some Return_TRUE \<and>
          mode (snd (gst_libde265_dec_set_format v2 eng dcd (hdr @ encode_arrays arrays @ rest) dec))
            = GST_TYPE_LIBDE265_DEC_PACKETIZED \<and>
          length_size (snd (gst_libde265_dec_set_format v2 eng dcd (hdr @ encode_arrays arrays @ rest) dec))
            = uint (hdr ! 21 AND 3) + 1 \<and>
          ctx (snd (gst_libde265_dec_set_format v2 eng dcd (hdr @ encode_arrays arrays @ rest) dec))
            = ctx dec @ map param_set_NAL (concat (map snd arrays)) @ [de265_push_end_of_NAL]) \<and>
         (\<forall>m < length (encode_arrays arrays).
            \<exists>e k. fst (gst_libde265_dec_set_format v2 eng dcd (hdr @ take m (encode_arrays arrays)) dec)
                    = Some (Return_FALSE e) \<and>
              e \<in> underrun_errors \<and>
              ctx (snd (gst_libde265_dec_set_format v2 eng dcd (hdr @ take m (encode_arrays arrays)) dec))
                = ctx dec @ map param_set_NAL (take k (concat (map snd arrays))))"
proof (intro conjI allI impI)
  note res = set_format_record [OF ok hdr cnt wf big, of v2 dcd dec]
  show "fst (gst_libde265_dec_set_format v2 eng dcd (hdr @ encode_arrays arrays @ rest) dec) = Some Return_TRUE"
    unfolding res using finish_settles [OF dcd] by simp
  show "mode (snd (gst_libde265_dec_set_format v2 eng dcd (hdr @ encode_arrays arrays @ rest) dec))
            = GST_TYPE_LIBDE265_DEC_PACKETIZED"
    "length_size (snd (gst_libde265_dec_set_format v2 eng dcd (hdr @ encode_arrays arrays @ rest) dec))
            = uint (hdr ! 21 AND 3) + 1"
    "ctx (snd (gst_libde265_dec_set_format v2 eng dcd (hdr @ encode_arrays arrays @ rest) dec))
            = ctx dec @ map param_set_NAL (concat (map snd arrays)) @ [de265_push_end_of_NAL]"
    unfolding res by simp_all
next
  fix m assume m: "m < length (encode_arrays arrays)"
  have "length (hdr @ take m (encode_arrays arrays)) < 2 ^ 31"
    using big m by simp
  from set_format_truncated [OF ok hdr cnt wf m this, of v2 dcd dec]
  show "\<exists>e k. fst (gst_libde265_dec_set_format v2 eng dcd (hdr @ take m (encode_arrays arrays)) dec)
                    = Some (Return_FALSE e) \<and>
              e \<in> underrun_errors \<and>
              ctx (snd (gst_libde265_dec_set_format v2 eng dcd (hdr @ take m (encode_arrays arrays)) dec))
                = ctx dec @ map param_set_NAL (take k (concat (map snd arrays)))" .
qed

text \<open>
  Scenario A of the specification, built against libde265 before 2.0 with an engine that
  awaits input: one push of the 10-byte unit, length-prefix size 3, TRUE returned; and
  the same record cut inside the unit's payload.
\<close>

theorem set_format_parameter_sets_witness:
  "fst (gst_libde265_dec_set_format False (\<lambda>cs c. DE265_OK) waiting_decoder
         (scenario_A_header @ encode_arrays scenario_A_arrays) gst_libde265_dec_init) = Some Return_TRUE \<and>
   length_size (snd (gst_libde265_dec_set_format False (\<lambda>cs c. DE265_OK) waiting_decoder
         (scenario_A_header @ encode_arrays scenario_A_arrays) gst_libde265_dec_init)) = 3 \<and>
   ctx (snd (gst_libde265_dec_set_format False (\<lambda>cs c. DE265_OK) waiting_decoder
         (scenario_A_header @ encode_arrays scenario_A_arrays) gst_libde265_dec_init))
     = [de265_push_NAL [64, 1, 12, 1, 255, 255, 1, 96, 0, 0] 10 0, de265_push_end_of_NAL] \<and>
   (\<exists>e. fst (gst_libde265_dec_set_format False (\<lambda>cs c. DE265_OK) waiting_decoder
         (scenario_A_header @ take 9 (encode_arrays scenario_A_arrays)) gst_libde265_dec_init)
           = Some (Return_FALSE e) \<and>
        e \<in> underrun_errors)"
proof -
  have h1: "\<forall>cs c. de265_isOK ((\<lambda>cs c. DE265_OK) cs c)"
    by (simp add: de265_isOK_def)
  have h2: "False \<or> decode_settles waiting_decoder"
    using waiting_decoder_settles by simp
  have h3: "length scenario_A_header = 23"
    by (simp add: scenario_A_header_def)
  have h4: "scenario_A_header ! 0 \<noteq> 0 \<or> scenario_A_header ! 1 \<noteq> 0 \<or> scenario_A_header ! 2 > 1"
    by (simp add: scenario_A_header_def)
  have h5: "unat (scenario_A_header ! 22) = length scenario_A_arrays"
    by (simp add: scenario_A_header_def scenario_A_arrays_def nth_append)
  have h6: "fits_fields scenario_A_arrays"
    by (simp add: scenario_A_arrays_def fits_fields_def)
  have h7: "length (scenario_A_header @ encode_arrays scenario_A_arrays @ []) < 2 ^ 31"
    by (simp add: scenario_A_header_def scenario_A_arrays_def encode_arrays_def)
  have b21: "uint (scenario_A_header ! 21 AND 3) + 1 = 3"
    by (simp add: scenario_A_header_def nth_append)
  have m: "9 < length (encode_arrays scenario_A_arrays)"
    by (simp add: scenario_A_arrays_def encode_arrays_def)
  note inst = set_format_parameter_sets [OF h1 h2 h3 h4 h5 h6 h7, of gst_libde265_dec_init]
  from inst have full: "fst (gst_libde265_dec_set_format False (\<lambda>cs c. DE265_OK) waiting_decoder
         (scenario_A_header @ encode_arrays scenario_A_arrays) gst_libde265_dec_init) = Some Return_TRUE \<and>
   length_size (snd (gst_libde265_dec_set_format False (\<lambda>cs c. DE265_OK) waiting_decoder
         (scenario_A_header @ encode_arrays scenario_A_arrays) gst_libde265_dec_init)) = 3 \<and>
   ctx (snd (gst_libde265_dec_set_format False (\<lambda>cs c. DE265_OK) waiting_decoder
         (scenario_A_header @ encode_arrays scenario_A_arrays) gst_libde265_dec_init))
     = [de265_push_NAL [64, 1, 12, 1, 255, 255, 1, 96, 0, 0] 10 0, de265_push_end_of_NAL]"
    by (simp add: b21 gst_libde265_dec_init_def) (simp add: scenario_A_arrays_def param_set_NAL_def)
  from inst m have "\<exists>e k. fst (gst_libde265_dec_set_format False (\<lambda>cs c. DE265_OK) waiting_decoder
         (scenario_A_header @ take 9 (encode_arrays scenario_A_arrays)) gst_libde265_dec_init)
           = Some (Return_FALSE e) \<and>
        e \<in> underrun_errors \<and>
        ctx (snd (gst_libde265_dec_set_format False (\<lambda>cs c. DE265_OK) waiting_decoder
           (scenario_A_header @ take 9 (encode_arrays scenario_A_arrays)) gst_libde265_dec_init))
          = ctx gst_libde265_dec_init @ map param_set_NAL (take k (concat (map snd scenario_A_arrays)))"
    by blast
  with full show ?thesis by blast
qed

lemma nal_loop_no_push_data:
  "\<exists>new. loop_calls (nal_loop eng data n (pos, calls)) = calls @ new \<and> (\<forall>c\<in>set new. \<not> is_push_data c)"
proof (induction n arbitrary: pos calls)
  case 0
  then show ?case by (simp add: loop_calls_def)
next
  case (Suc n)
  define nal_size where "nal_size = int (read_be16 data (nat pos))"
  define c where "c = de265_push_NAL (take (nat nal_size) (drop (nat (pos + 2)) data)) nal_size 0"
  from Suc [of "c_int (pos + 2 + nal_size)" "calls @ [c]"]
  obtain new where new: "loop_calls (nal_loop eng data n (c_int (pos + 2 + nal_size), calls @ [c]))
       = calls @ c # new" "\<forall>c\<in>set new. \<not> is_push_data c"
    by auto
  have c: "\<not> is_push_data c"
    by (simp add: c_def is_push_data_def)
  have "loop_calls (nal_loop eng data (Suc n) (pos, calls)) \<in> {calls, calls @ [c], calls @ c # new}"
    using new(1) by (simp add: Let_def loop_calls_def c_def nal_size_def)
  then consider "loop_calls (nal_loop eng data (Suc n) (pos, calls)) = calls @ []"
    | "loop_calls (nal_loop eng data (Suc n) (pos, calls)) = calls @ [c]"
    | "loop_calls (nal_loop eng data (Suc n) (pos, calls)) = calls @ c # new"
    by auto
  then show ?case
  proof cases
    case 1 then show ?thesis by (intro exI [of _ "[]"]) simp
  next
    case 2 with c show ?thesis by (intro exI [of _ "[c]"]) simp
  next
    case 3 with c new(2) show ?thesis by (intro exI [of _ "c # new"]) simp
  qed
qed

lemma param_set_loop_no_push_data:
  "\<exists>new. loop_calls (param_set_loop eng data n (pos, calls)) = calls @ new \<and> (\<forall>c\<in>set new. \<not> is_push_data c)"
proof (induction n arbitrary: pos calls)
  case 0
  then show ?case by (simp add: loop_calls_def)
next
  case (Suc n)
  show ?case
  proof (cases "gsize_of_int (c_int (pos + 3)) > length data")
    case True
    then have "loop_calls (param_set_loop eng data (Suc n) (pos, calls)) = calls @ []"
      by (simp add: loop_calls_def)
    then show ?thesis by (intro exI [of _ "[]"]) simp
  next
    case False
    define nal_count where "nal_count = read_be16 data (nat (pos + 1))"
    from nal_loop_no_push_data [of eng data nal_count "c_int (pos + 3)" calls]
    obtain new1 where n1: "loop_calls (nal_loop eng data nal_count (c_int (pos + 3), calls)) = calls @ new1"
      "\<forall>c\<in>set new1. \<not> is_push_data c"
      by blast
    show ?thesis
    proof (cases "nal_loop eng data nal_count (c_int (pos + 3), calls)")
      case (Inl e)
      then have "loop_calls (param_set_loop eng data (Suc n) (pos, calls)) = calls @ new1"
        using False n1(1) by (simp add: Let_def nal_count_def)
      with n1(2) show ?thesis by blast
    next
      case (Inr pc)
      obtain p cs where pc: "pc = (p, cs)" by (cases pc)
      have cs: "cs = calls @ new1"
        using n1(1) Inr pc by (simp add: loop_calls_def)
      from Suc [of p cs] obtain new2 where n2: "loop_calls (param_set_loop eng data n (p, cs)) = cs @ new2"
        "\<forall>c\<in>set new2. \<not> is_push_data c"
        by blast
      have "loop_calls (param_set_loop eng data (Suc n) (pos, calls)) = calls @ (new1 @ new2)"
        using False Inr pc n2(1) cs by (simp add: Let_def nal_count_def)
      moreover have "\<forall>c\<in>set (new1 @ new2). \<not> is_push_data c"
        using n1(2) n2(2) by auto
      ultimately show ?thesis by blast
    qed
  qed
qed

text \<open>The three ways through the function, one by one.\<close>

lemma set_format_raw:
  assumes "\<not> is_hvcC data" "length data < 2 ^ 31"
  shows "mode (snd (gst_libde265_dec_set_format v2 eng dcd data dec)) = GST_TYPE_LIBDE265_DEC_RAW"
    and "length_size (snd (gst_libde265_dec_set_format v2 eng dcd data dec)) = length_size dec"
    and "ctx (snd (gst_libde265_dec_set_format v2 eng dcd data dec))
          = ctx dec @ de265_push_data data (int (length data)) 0 #
              (if de265_isOK (eng (ctx dec) (de265_push_data data (int (length data)) 0))
               then [de265_push_end_of_NAL] else [])"
proof -
  have "c_int (int (length data)) = int (length data)"
    using assms(2) by (intro c_int_id) simp_all
  then show "mode (snd (gst_libde265_dec_set_format v2 eng dcd data dec)) = GST_TYPE_LIBDE265_DEC_RAW"
    and "length_size (snd (gst_libde265_dec_set_format v2 eng dcd data dec)) = length_size dec"
    and "ctx (snd (gst_libde265_dec_set_format v2 eng dcd data dec))
          = ctx dec @ de265_push_data data (int (length data)) 0 #
              (if de265_isOK (eng (ctx dec) (de265_push_data data (int (length data)) 0))
               then [de265_push_end_of_NAL] else [])"
    using assms(1) by (simp_all add: gst_libde265_dec_set_format_def Let_def)
qed

lemma set_format_short:
  assumes "is_hvcC data" "length data \<le> 22"
  shows "gst_libde265_dec_set_format v2 eng dcd data dec =
      ((if v2 then Some Return_TRUE else decode_loop (dcd (ctx dec @ [de265_push_end_of_NAL])) 0),
       dec\<lparr>codec_data := data, mode := GST_TYPE_LIBDE265_DEC_PACKETIZED,
           ctx := ctx dec @ [de265_push_end_of_NAL]\<rparr>)"
  using assms by (simp add: gst_libde265_dec_set_format_def Let_def)

lemma set_format_packetized:
  assumes "is_hvcC data"
  shows "mode (snd (gst_libde265_dec_set_format v2 eng dcd data dec)) = GST_TYPE_LIBDE265_DEC_PACKETIZED"
    and "\<exists>new. ctx (snd (gst_libde265_dec_set_format v2 eng dcd data dec)) = ctx dec @ new \<and>
               (\<forall>c\<in>set new. \<not> is_push_data c)"
    and "length data > 22 \<Longrightarrow>
         length_size (snd (gst_libde265_dec_set_format v2 eng dcd data dec)) = uint (data ! 21 AND 3) + 1"
proof -
  show "mode (snd (gst_libde265_dec_set_format v2 eng dcd data dec)) = GST_TYPE_LIBDE265_DEC_PACKETIZED"
    using assms by (simp add: gst_libde265_dec_set_format_def Let_def split: sum.splits prod.splits)
  show "length data > 22 \<Longrightarrow>
         length_size (snd (gst_libde265_dec_set_format v2 eng dcd data dec)) = uint (data ! 21 AND 3) + 1"
    using assms by (simp add: gst_libde265_dec_set_format_def Let_def split: sum.splits prod.splits)
  show "\<exists>new. ctx (snd (gst_libde265_dec_set_format v2 eng dcd data dec)) = ctx dec @ new \<and>
               (\<forall>c\<in>set new. \<not> is_push_data c)"
  proof (cases "length data > 22")
    case False
    then have "ctx (snd (gst_libde265_dec_set_format v2 eng dcd data dec)) = ctx dec @ [de265_push_end_of_NAL]"
      using assms by (simp add: set_format_short)
    then show ?thesis by (intro exI [of _ "[de265_push_end_of_NAL]"]) (simp add: is_push_data_def)
  next
    case True
    from param_set_loop_no_push_data [of eng data "unat (data ! 22)" 23 "ctx dec"]
    obtain new where new: "loop_calls (param_set_loop eng data (unat (data ! 22)) (23, ctx dec)) = ctx dec @ new"
      "\<forall>c\<in>set new. \<not> is_push_data c"
      by blast
    have "ctx (snd (gst_libde265_dec_set_format v2 eng dcd data dec)) = ctx dec @ new \<or>
          ctx (snd (gst_libde265_dec_set_format v2 eng dcd data dec)) = ctx dec @ (new @ [de265_push_end_of_NAL])"
      using assms True new(1)
      by (auto simp: gst_libde265_dec_set_format_def Let_def loop_calls_def split: sum.splits prod.splits)
    moreover have "\<forall>c\<in>set (new @ [de265_push_end_of_NAL]). \<not> is_push_data c"
      using new(2) by (simp add: is_push_data_def)
    ultimately show ?thesis using new(2) by blast
  qed
qed

text \<open>
  C3, as amended. For every codec-data buffer longer than 3 bytes (and shorter than
  \<open>2 ^ 31\<close>, the range of the \<^verbatim>\<open>int\<close> length and position) the mode is RawByteStream
  exactly when the first three bytes form a start-code pattern (byte 0 = 0, byte 1 = 0,
  byte 2 \<le> 1); then the whole buffer is pushed verbatim as stream data, with its length,
  followed by the end-of-NAL marker if the engine accepts it, and the length-prefix size
  is left alone. Otherwise the mode is Packetized and no stream data is pushed; and
  \<^item> a buffer of at most 22 bytes is not read any further: nothing of it is pushed (the
    end-of-NAL marker is the only call) and the length-prefix size is left alone;
  \<^item> a buffer longer than 22 bytes is read as a configuration record: the length-prefix
    size becomes (byte 21 AND 3) + 1, and if the bytes after the first 23 are the arrays
    that byte 22 counts, followed by anything, and the engine accepts what it is given,
    the units of those arrays are pushed one by one, in order, before the end-of-NAL
    marker.

  In particular a buffer starting 00 00 00 is RawByteStream, whatever follows.
\<close>

theorem set_format_mode:
  assumes "length data > 3" and "length data < 2 ^ 31"
  shows "(start_code data \<longrightarrow>
            mode (snd (gst_libde265_dec_set_format v2 eng dcd data dec)) = GST_TYPE_LIBDE265_DEC_RAW \<and>
            length_size (snd (gst_libde265_dec_set_format v2 eng dcd data dec)) = length_size dec \<and>
            ctx (snd (gst_libde265_dec_set_format v2 eng dcd data dec))
              = ctx dec @ de265_push_data data (int (length data)) 0 #
                  (if de265_isOK (eng (ctx dec) (de265_push_data data (int (length data)) 0))
                   then [de265_push_end_of_NAL] else [])) \<and>
         (\<not> start_code data \<longrightarrow>
            mode (snd (gst_libde265_dec_set_format v2 eng dcd data dec)) = GST_TYPE_LIBDE265_DEC_PACKETIZED \<and>
            (\<exists>new. ctx (snd (gst_libde265_dec_set_format v2 eng dcd data dec)) = ctx dec @ new \<and>
                   (\<forall>c\<in>set new. \<not> is_push_data c)) \<and>
            (length data \<le> 22 \<longrightarrow>
               length_size (snd (gst_libde265_dec_set_format v2 eng dcd data dec)) = length_size dec \<and>
               ctx (snd (gst_libde265_dec_set_format v2 eng dcd data dec))
                 = ctx dec @ [de265_push_end_of_NAL]) \<and>
            (length data > 22 \<longrightarrow>
               length_size (snd (gst_libde265_dec_set_format v2 eng dcd data dec))
                 = uint (data ! 21 AND 3) + 1 \<and>
               (\<forall>arrays rest.
                  (\<forall>cs c. de265_isOK (eng cs c)) \<and>
                  data = take 23 data @ encode_arrays arrays @ rest \<and>
                  unat (data ! 22) = length arrays \<and> fits_fields arrays \<longrightarrow>
                  ctx (snd (gst_libde265_dec_set_format v2 eng dcd data dec))
                    = ctx dec @ map param_set_NAL (concat (map snd arrays)) @ [de265_push_end_of_NAL])))"
proof (intro conjI impI allI)
  assume sc: "start_code data"
  then have nh: "\<not> is_hvcC data"
    by (auto simp: is_hvcC_def start_code_def)
  show "mode (snd (gst_libde265_dec_set_format v2 eng dcd data dec)) = GST_TYPE_LIBDE265_DEC_RAW"
    "length_size (snd (gst_libde265_dec_set_format v2 eng dcd data dec)) = length_size dec"
    "ctx (snd (gst_libde265_dec_set_format v2 eng dcd data dec))
              = ctx dec @ de265_push_data data (int (length data)) 0 #
                  (if de265_isOK (eng (ctx dec) (de265_push_data data (int (length data)) 0))
                   then [de265_push_end_of_NAL] else [])"
    using set_format_raw [OF nh assms(2), of v2 eng dcd dec] by blast+
next
  assume "\<not> start_code data"
  with assms have hv: "is_hvcC data"
    by (auto simp: is_hvcC_def start_code_def not_le)
  show "mode (snd (gst_libde265_dec_set_format v2 eng dcd data dec)) = GST_TYPE_LIBDE265_DEC_PACKETIZED"
    "\<exists>new. ctx (snd (gst_libde265_dec_set_format v2 eng dcd data dec)) = ctx dec @ new \<and>
                   (\<forall>c\<in>set new. \<not> is_push_data c)"
    using set_format_packetized [OF hv, of v2 eng dcd dec] by blast+
  {
    assume "length data \<le> 22"
    then show "length_size (snd (gst_libde265_dec_set_format v2 eng dcd data dec)) = length_size dec"
      "ctx (snd (gst_libde265_dec_set_format v2 eng dcd data dec)) = ctx dec @ [de265_push_end_of_NAL]"
      using hv by (simp_all add: set_format_short)
  }
  {
    assume long: "length data > 22"
    then show "length_size (snd (gst_libde265_dec_set_format v2 eng dcd data dec))
                 = uint (data ! 21 AND 3) + 1"
      using set_format_packetized(3) [OF hv] by blast
    fix arrays rest
    assume rec: "(\<forall>cs c. de265_isOK (eng cs c)) \<and>
                  data = take 23 data @ encode_arrays arrays @ rest \<and>
                  unat (data ! 22) = length arrays \<and> fits_fields arrays"
    define hdr where "hdr = take 23 data"
    have len: "length hdr = 23"
      using long by (simp add: hdr_def)
    have b: "hdr ! 0 = data ! 0" "hdr ! 1 = data ! 1" "hdr ! 2 = data ! 2" "hdr ! 22 = data ! 22"
      by (simp_all add: hdr_def)
    have h: "hdr ! 0 \<noteq> 0 \<or> hdr ! 1 \<noteq> 0 \<or> hdr ! 2 > 1"
      using hv unfolding b by (simp add: is_hvcC_def)
    have eq: "data = hdr @ encode_arrays arrays @ rest"
      using rec by (simp add: hdr_def)
    have big: "length (hdr @ encode_arrays arrays @ rest) < 2 ^ 31"
      using assms(2) unfolding eq [symmetric] .
    have cnt: "unat (hdr ! 22) = length arrays"
      using rec by (simp add: b)
    have "ctx (snd (gst_libde265_dec_set_format v2 eng dcd (hdr @ encode_arrays arrays @ rest) dec))
        = ctx dec @ map param_set_NAL (concat (map snd arrays)) @ [de265_push_end_of_NAL]"
      using rec by (simp add: set_format_record [OF _ len h cnt _ big])
    then show "ctx (snd (gst_libde265_dec_set_format v2 eng dcd data dec))
                    = ctx dec @ map param_set_NAL (concat (map snd arrays)) @ [de265_push_end_of_NAL]"
      unfolding eq [symmetric] .
  }
qed

text \<open>
  The three cases at work, built against libde265 before 2.0 with an engine that awaits
  input. A 23-byte buffer that starts with 00 00 00: raw mode, pushed whole. A 5-byte
  buffer that starts with 01: Packetized, nothing of it read, the length-prefix size still
  the default 4. Scenario A: Packetized, length-prefix size 3, the unit pushed.
\<close>

theorem set_format_mode_witness:
  "(mode (snd (gst_libde265_dec_set_format False (\<lambda>cs c. DE265_OK) waiting_decoder
       start_code_record gst_libde265_dec_init)) = GST_TYPE_LIBDE265_DEC_RAW \<and>
    ctx (snd (gst_libde265_dec_set_format False (\<lambda>cs c. DE265_OK) waiting_decoder
       start_code_record gst_libde265_dec_init))
      = [de265_push_data start_code_record 23 0, de265_push_end_of_NAL]) \<and>
   (mode (snd (gst_libde265_dec_set_format False (\<lambda>cs c. DE265_OK) waiting_decoder
       short_record gst_libde265_dec_init)) = GST_TYPE_LIBDE265_DEC_PACKETIZED \<and>
    length_size (snd (gst_libde265_dec_set_format False (\<lambda>cs c. DE265_OK) waiting_decoder
       short_record gst_libde265_dec_init)) = 4 \<and>
    ctx (snd (gst_libde265_dec_set_format False (\<lambda>cs c. DE265_OK) waiting_decoder
       short_record gst_libde265_dec_init)) = [de265_push_end_of_NAL]) \<and>
   (mode (snd (gst_libde265_dec_set_format False (\<lambda>cs c. DE265_OK) waiting_decoder
       (scenario_A_header @ encode_arrays scenario_A_arrays) gst_libde265_dec_init))
      = GST_TYPE_LIBDE265_DEC_PACKETIZED \<and>
    length_size (snd (gst_libde265_dec_set_format False (\<lambda>cs c. DE265_OK) waiting_decoder
       (scenario_A_header @ encode_arrays scenario_A_arrays) gst_libde265_dec_init)) = 3 \<and>
    ctx (snd (gst_libde265_dec_set_format False (\<lambda>cs c. DE265_OK) waiting_decoder
       (scenario_A_header @ encode_arrays scenario_A_arrays) gst_libde265_dec_init))
      = [de265_push_NAL [64, 1, 12, 1, 255, 255, 1, 96, 0, 0] 10 0, de265_push_end_of_NAL])"
proof (intro conjI)
  have ok: "\<forall>cs c. de265_isOK ((\<lambda>cs c. DE265_OK) cs c)"
    by (simp add: de265_isOK_def)
  have r1: "length start_code_record > 3" "length start_code_record < 2 ^ 31"
    by (simp_all add: start_code_record_def)
  have sc: "start_code start_code_record"
    by (simp add: start_code_record_def start_code_def)
  note raw = set_format_mode [OF r1, of False "\<lambda>cs c. DE265_OK" waiting_decoder gst_libde265_dec_init]
  show "mode (snd (gst_libde265_dec_set_format False (\<lambda>cs c. DE265_OK) waiting_decoder
       start_code_record gst_libde265_dec_init)) = GST_TYPE_LIBDE265_DEC_RAW"
    using raw sc by blast
  have "ctx (snd (gst_libde265_dec_set_format False (\<lambda>cs c. DE265_OK) waiting_decoder
       start_code_record gst_libde265_dec_init))
      = ctx gst_libde265_dec_init @ de265_push_data start_code_record (int (length start_code_record)) 0 #
          (if de265_isOK ((\<lambda>cs c. DE265_OK) (ctx gst_libde265_dec_init)
                 (de265_push_data start_code_record (int (length start_code_record)) 0))
           then [de265_push_end_of_NAL] else [])"
    using raw sc by blast
  moreover have "length start_code_record = 23"
    by (simp add: start_code_record_def)
  ultimately show "ctx (snd (gst_libde265_dec_set_format False (\<lambda>cs c. DE265_OK) waiting_decoder
       start_code_record gst_libde265_dec_init))
      = [de265_push_data start_code_record 23 0, de265_push_end_of_NAL]"
    by (simp add: gst_libde265_dec_init_def de265_isOK_def)
next
  have r2: "length short_record > 3" "length short_record < 2 ^ 31"
    by (simp_all add: short_record_def)
  have ns: "\<not> start_code short_record" "length short_record \<le> 22"
    by (simp_all add: short_record_def start_code_def)
  note short = set_format_mode [OF r2, of False "\<lambda>cs c. DE265_OK" waiting_decoder gst_libde265_dec_init]
  show "mode (snd (gst_libde265_dec_set_format False (\<lambda>cs c. DE265_OK) waiting_decoder
       short_record gst_libde265_dec_init)) = GST_TYPE_LIBDE265_DEC_PACKETIZED"
    using short ns by blast
  have "length_size (snd (gst_libde265_dec_set_format False (\<lambda>cs c. DE265_OK) waiting_decoder
       short_record gst_libde265_dec_init)) = length_size gst_libde265_dec_init"
    using short ns by blast
  then show "length_size (snd (gst_libde265_dec_set_format False (\<lambda>cs c. DE265_OK) waiting_decoder
       short_record gst_libde265_dec_init)) = 4"
    by (simp add: gst_libde265_dec_init_def)
  have "ctx (snd (gst_libde265_dec_set_format False (\<lambda>cs c. DE265_OK) waiting_decoder
       short_record gst_libde265_dec_init)) = ctx gst_libde265_dec_init @ [de265_push_end_of_NAL]"
    using short ns by blast
  then show "ctx (snd (gst_libde265_dec_set_format False (\<lambda>cs c. DE265_OK) waiting_decoder
       short_record gst_libde265_dec_init)) = [de265_push_end_of_NAL]"
    by (simp add: gst_libde265_dec_init_def)
next
  define data where "data = scenario_A_header @ encode_arrays scenario_A_arrays"
  have ok: "\<forall>cs c. de265_isOK ((\<lambda>cs c. DE265_OK) cs c)"
    by (simp add: de265_isOK_def)
  have r3: "length data > 3" "length data < 2 ^ 31"
    by (simp_all add: data_def scenario_A_header_def scenario_A_arrays_def encode_arrays_def)
  have ns: "\<not> start_code data" "length data > 22"
    by (simp_all add: data_def scenario_A_header_def scenario_A_arrays_def encode_arrays_def start_code_def)
  have rec: "data = take 23 data @ encode_arrays scenario_A_arrays @ []"
    by (simp add: data_def scenario_A_header_def)
  have cnt: "unat (data ! 22) = length scenario_A_arrays"
    by (simp add: data_def scenario_A_header_def scenario_A_arrays_def nth_append)
  have wf: "fits_fields scenario_A_arrays"
    by (simp add: scenario_A_arrays_def fits_fields_def)
  have b21: "uint (data ! 21 AND 3) + 1 = 3"
    by (simp add: data_def scenario_A_header_def nth_append)
  note long = set_format_mode [OF r3, of False "\<lambda>cs c. DE265_OK" waiting_decoder gst_libde265_dec_init]
  show "mode (snd (gst_libde265_dec_set_format False (\<lambda>cs c. DE265_OK) waiting_decoder
       (scenario_A_header @ encode_arrays scenario_A_arrays) gst_libde265_dec_init))
      = GST_TYPE_LIBDE265_DEC_PACKETIZED"
    using long ns unfolding data_def by blast
  have "length_size (snd (gst_libde265_dec_set_format False (\<lambda>cs c. DE265_OK) waiting_decoder
       data gst_libde265_dec_init)) = uint (data ! 21 AND 3) + 1"
    using long ns by blast
  then show "length_size (snd (gst_libde265_dec_set_format False (\<lambda>cs c. DE265_OK) waiting_decoder
       (scenario_A_header @ encode_arrays scenario_A_arrays) gst_libde265_dec_init)) = 3"
    using b21 unfolding data_def by simp
  have "ctx (snd (gst_libde265_dec_set_format False (\<lambda>cs c. DE265_OK) waiting_decoder
       data gst_libde265_dec_init))
      = ctx gst_libde265_dec_init @ map param_set_NAL (concat (map snd scenario_A_arrays)) @ [de265_push_end_of_NAL]"
    using long ns ok rec cnt wf by blast
  then show "ctx (snd (gst_libde265_dec_set_format False (\<lambda>cs c. DE265_OK) waiting_decoder
       (scenario_A_header @ encode_arrays scenario_A_arrays) gst_libde265_dec_init))
      = [de265_push_NAL [64, 1, 12, 1, 255, 255, 1, 96, 0, 0] 10 0, de265_push_end_of_NAL]"
    unfolding data_def by (simp add: gst_libde265_dec_init_def scenario_A_arrays_def param_set_NAL_def)
qed

text \<open>
  C3 as stated says that 00 00 00 followed by a valid configuration record gives
  Packetized mode. It does not: the detection rule of the same claim makes it raw, and the
  23 bytes are pushed as stream data.
\<close>

theorem set_format_zero_prefix_counterexample:
  "length start_code_record = 23 \<and>
   take 3 start_code_record = [0, 0, 0] \<and>
   mode (snd (gst_libde265_dec_set_format False (\<lambda>cs c. DE265_OK) waiting_decoder
     start_code_record gst_libde265_dec_init)) = GST_TYPE_LIBDE265_DEC_RAW \<and>
   ctx (snd (gst_libde265_dec_set_format False (\<lambda>cs c. DE265_OK) waiting_decoder
     start_code_record gst_libde265_dec_init))
     = [de265_push_data start_code_record 23 0, de265_push_end_of_NAL]"
  by (simp add: start_code_record_def gst_libde265_dec_set_format_def is_hvcC_def Let_def
      gst_libde265_dec_init_def c_int_def de265_isOK_def)

subsection \<open>NAL demuxer\<close>

lemma shift_or_byte:
  "push_bit 8 (of_nat a :: 32 word) OR ucast (b :: byte) = of_nat (a * 256 + unat b)"
proof -
  have "push_bit 8 (of_nat a :: 32 word) + ucast b = push_bit 8 (of_nat a) OR ucast b"
    by (rule disjunctive_add_eq_or, rule bit_eqI) (auto simp: bit_simps dest: bit_imp_le_length)
  then show ?thesis
    by (simp add: push_bit_eq_mult)
qed

lemma read_nal_size_be_value: "read_nal_size bs = of_nat (be_value bs)"
  by (induction bs rule: rev_induct) (simp_all add: read_nal_size_def be_value_def shift_or_byte)

lemma be_value_be_bytes: "be_value (be_bytes k n) = n mod 256 ^ k"
proof (induction k arbitrary: n)
  case 0
  then show ?case by (simp add: be_value_def)
next
  case (Suc k)
  have "be_value (be_bytes (Suc k) n) = be_value (be_bytes k (n div 256)) * 256 + n mod 256"
    by (simp add: be_value_def unat_of_nat take_bit_eq_mod)
  also have "\<dots> = (n div 256) mod 256 ^ k * 256 + n mod 256"
    by (simp add: Suc)
  also have "\<dots> = n mod 256 ^ Suc k"
    by (simp add: mod_mult2_eq)
  finally show ?case .
qed

lemma length_be_bytes [simp]: "length (be_bytes k n) = k"
  by (induction k arbitrary: n) simp_all

lemma sint_read_nal_size:
  assumes "N \<le> 4" "n < 256 ^ N" "n < 2 ^ 31"
  shows "sint (read_nal_size (be_bytes N n)) = int n"
proof -
  have "read_nal_size (be_bytes N n) = of_nat n"
    using assms(2) by (simp add: read_nal_size_be_value be_value_be_bytes)
  moreover have "sint (of_nat n :: 32 word) = int n"
    using assms(3) by (simp add: signed_of_nat signed_take_bit_int_eq_self)
  ultimately show ?thesis by simp
qed


lemma length_encode_record [simp]: "length (encode_record N p) = N + length p"
  by (simp add: encode_record_def)





text \<open>
  A length prefix below \<open>2 ^ 31\<close> that claims more bytes than remain is caught: the
  overflow error is raised after the records before it have been pushed, and nothing of
  the malformed record is pushed.
\<close>

lemma packetized_loop_skip_records:
  assumes N: "N \<le> 4"
    and ok: "\<forall>cs c. eng cs c = DE265_OK"
    and ps: "\<forall>p\<in>set ps. length p < 256 ^ N \<and> length p < 2 ^ 31"
  shows "packetized_loop eng (pre @ encode_records N ps @ rest) (int N) pts (int (length pre)) calls
       = packetized_loop eng (pre @ encode_records N ps @ rest) (int N) pts
           (int (length pre + length (encode_records N ps))) (calls @ map (chunk_NAL pts) ps)"
  using ps
proof (induction ps arbitrary: pre calls)
  case Nil
  then show ?case by (simp add: encode_records_def)
next
  case (Cons p ps)
  define chunk where "chunk = pre @ encode_records N (p # ps) @ rest"
  have chunk1: "chunk = pre @ be_bytes N (length p) @ (p @ encode_records N ps @ rest)"
    by (simp add: chunk_def encode_records_def encode_record_def)
  have chunk2: "chunk = (pre @ encode_record N p) @ encode_records N ps @ rest"
    by (simp add: chunk_def encode_records_def)
  have p: "length p < 256 ^ N" "length p < 2 ^ 31"
    using Cons.prems by simp_all
  have len: "length pre + N + length p \<le> length chunk"
    unfolding chunk1 by simp
  have prefix: "take N (drop (length pre) chunk) = be_bytes N (length p)"
    unfolding chunk1 by simp
  have size: "sint (read_nal_size (be_bytes N (length p))) = int (length p)"
    using N p by (rule sint_read_nal_size)
  have payload: "take (length p) (drop (length pre + N) chunk) = p"
    unfolding chunk1 by simp
  have L: "length (encode_records N (p # ps)) = N + length p + length (encode_records N ps)"
    by (simp add: encode_records_def)
  have IH: "packetized_loop eng chunk (int N) pts (int (length pre) + int N + int (length p))
        (calls @ [chunk_NAL pts p])
      = packetized_loop eng chunk (int N) pts
          (int (length pre + length (encode_records N (p # ps))))
          (calls @ chunk_NAL pts p # map (chunk_NAL pts) ps)"
    using Cons.IH [of "pre @ encode_record N p" "calls @ [chunk_NAL pts p]"] Cons.prems
    unfolding chunk2 L by (simp add: add.assoc)
  have "packetized_loop eng chunk (int N) pts (int (length pre)) calls
      = packetized_loop eng chunk (int N) pts
          (int (length pre + length (encode_records N (p # ps))))
          (calls @ chunk_NAL pts p # map (chunk_NAL pts) ps)"
    using len prefix size payload ok IH
    by (subst packetized_loop.simps) (simp add: Let_def chunk_NAL_def nat_add_distrib)
  then show ?case
    unfolding chunk_def by simp
qed

lemma packetized_loop_overflow:
  assumes N: "1 \<le> N" "N \<le> 4"
    and ok: "\<forall>cs c. eng cs c = DE265_OK"
    and ps: "\<forall>p\<in>set ps. length p < 256 ^ N \<and> length p < 2 ^ 31"
    and n: "n < 256 ^ N" "n < 2 ^ 31" "length tail < n"
  shows "packetized_loop eng (pre @ encode_records N ps @ be_bytes N n @ tail) (int N) pts
           (int (length pre)) calls
       = Some (Input_error Overflow_in_input_data, calls @ map (chunk_NAL pts) ps)"
proof -
  define chunk where "chunk = pre @ encode_records N ps @ be_bytes N n @ tail"
  define start where "start = length pre + length (encode_records N ps)"
  have chunk1: "chunk = (pre @ encode_records N ps) @ be_bytes N n @ tail"
    by (simp add: chunk_def)
  have len: "length chunk = start + N + length tail"
    by (simp add: chunk_def start_def)
  have prefix: "take N (drop start chunk) = be_bytes N n"
    unfolding chunk1 start_def by simp
  have size: "sint (read_nal_size (be_bytes N n)) = int n"
    using N(2) n(1,2) by (rule sint_read_nal_size)
  have "packetized_loop eng chunk (int N) pts (int start) (calls @ map (chunk_NAL pts) ps)
      = Some (Input_error Overflow_in_input_data, calls @ map (chunk_NAL pts) ps)"
    using len prefix size n(3) N(1)
    by (subst packetized_loop.simps) (simp add: Let_def)
  then show ?thesis
    using packetized_loop_skip_records [OF N(2) ok ps, of pre "be_bytes N n @ tail" pts calls]
    by (simp add: chunk_def start_def)
qed

lemma handle_frame_input_overflow:
  assumes md: "mode dec = GST_TYPE_LIBDE265_DEC_PACKETIZED" "length_size dec = int N"
    and N: "1 \<le> N" "N \<le> 4"
    and ok: "\<forall>cs c. eng cs c = DE265_OK"
    and ps: "\<forall>p\<in>set ps. length p < 256 ^ N \<and> length p < 2 ^ 31"
    and n: "n < 256 ^ N" "n < 2 ^ 31" "length tail < n"
  shows "handle_frame_input eng (encode_records N ps @ be_bytes N n @ tail) pts dec
       = Some (Input_error Overflow_in_input_data, dec\<lparr>ctx := ctx dec @ map (chunk_NAL pts) ps\<rparr>)"
proof -
  have "0 < length (encode_records N ps @ be_bytes N n @ tail)"
    using N(1) by simp
  then show ?thesis
    using packetized_loop_overflow [OF N ok ps n, of "[]" pts "ctx dec"] md
    unfolding handle_frame_input_def by (simp del: length_greater_0_conv length_append)
qed




text \<open>
  C2. The overflow error is not raised for every length prefix that claims more bytes than
  remain. With the default 4-byte prefix, the chunk FF FF FF FF claims 4294967295 bytes
  and none remain; \<^verbatim>\<open>nal_size\<close> is the \<^verbatim>\<open>int\<close> -1, the overflow test
  \<^verbatim>\<open>start_data + 4 + (-1) > end_data\<close> is false, and the code pushes a NAL unit of
  length -1 and falls through to the decode stage without an error.
\<close>

theorem handle_frame_negative_length:
  "handle_frame_input (\<lambda>cs c. DE265_OK) [255, 255, 255, 255] 0 gst_libde265_dec_init
     = Some (Input_fed, gst_libde265_dec_init\<lparr>ctx := [de265_push_NAL [] (- 1) 0]\<rparr>)"
proof -
  have sz: "sint (read_nal_size [255, 255, 255, 255]) = - 1"
    by (simp add: read_nal_size_def)
  have "packetized_loop (\<lambda>cs c. DE265_OK) [255, 255, 255, 255] 4 0 0 []
      = packetized_loop (\<lambda>cs c. DE265_OK) [255, 255, 255, 255] 4 0 3 [de265_push_NAL [] (- 1) 0]"
    by (subst packetized_loop.simps) (simp add: sz Let_def)
  also have "\<dots> = Some (Input_fed, [de265_push_NAL [] (- 1) 0])"
    by (subst packetized_loop.simps) simp
  finally show ?thesis
    by (simp add: handle_frame_input_def gst_libde265_dec_init_def)
qed





subsection \<open>Geometry-change notification\<close>

lemma fps_above_1000_zero: "\<not> fps_above_1000 0 d"
  by (simp add: fps_above_1000_def round_to_float_def)

lemma fps_above_1000_examples:
  "fps_above_1000 5000 1" "\<not> fps_above_1000 30000 1001" "\<not> fps_above_1000 1000 1"
  "fps_above_1000 1001 1" "\<not> fps_above_1000 1000000001 1000000"
  by code_simp+

text \<open>
  C8, as amended. On every renegotiation (the picture's width or height differs from the
  stored one): a configured positive override is the negotiated frame rate, in all cases
  and without warning; with no override, a host frame rate whose denominator is zero, or
  whose single-precision quotient is above 1000, is replaced by 24/1 and a warning is
  emitted; every other host frame rate is negotiated as it is, without warning, and that
  includes a zero or absent rate, 0/d with d not zero.
\<close>

theorem image_available_frame_rate:
  assumes "w \<noteq> width dec \<or> h \<noteq> height dec"
  shows "fst (gst_libde265_image_available w h (n, d) dec) =
           Some (if fps_n dec > 0 then (fps_n dec, fps_d dec)
                 else if d = 0 \<or> fps_above_1000 n d then (24, 1)
                 else (n, d)) \<and>
         warnings (snd (gst_libde265_image_available w h (n, d) dec)) =
           warnings dec @
           (if fps_n dec > 0 then []
            else if d = 0 \<or> fps_above_1000 n d then [Framerate_is_too_high n d]
            else []) \<and>
         (fps_n dec \<le> 0 \<and> d \<noteq> 0 \<longrightarrow>
            fst (gst_libde265_image_available w h (0, d) dec) = Some (0, d) \<and>
            warnings (snd (gst_libde265_image_available w h (0, d) dec)) = warnings dec)"
  using assms by (auto simp: gst_libde265_image_available_def fps_above_1000_zero)

text \<open>No override, first picture 640x480: 5000/1 becomes 24/1, 0/1 stays 0/1.\<close>

theorem image_available_frame_rate_witness:
  "fst (gst_libde265_image_available 640 480 (5000, 1) gst_libde265_dec_init) = Some (24, 1) \<and>
   warnings (snd (gst_libde265_image_available 640 480 (5000, 1) gst_libde265_dec_init))
     = [Framerate_is_too_high 5000 1] \<and>
   fst (gst_libde265_image_available 640 480 (0, 1) gst_libde265_dec_init) = Some (0, 1) \<and>
   warnings (snd (gst_libde265_image_available 640 480 (0, 1) gst_libde265_dec_init)) = []"
proof -
  have h: "640 \<noteq> width gst_libde265_dec_init \<or> 480 \<noteq> height gst_libde265_dec_init"
    by (simp add: gst_libde265_dec_init_def)
  have f: "fps_n gst_libde265_dec_init \<le> 0" "warnings gst_libde265_dec_init = []"
    by (simp_all add: gst_libde265_dec_init_def)
  show ?thesis
    using image_available_frame_rate [OF h, of 5000 1] f fps_above_1000_examples(1)
    by simp
qed

text \<open>
  C8 as stated says that a zero or absent host frame rate is replaced by 24/1 with a
  warning. With no override and the host rate 0/1, the negotiated rate is 0/1 and no
  warning is recorded.
\<close>

theorem image_available_zero_rate_counterexample:
  "fps_n gst_libde265_dec_init = 0 \<and>
   gst_libde265_image_available 640 480 (0, 1) gst_libde265_dec_init
     = (Some (0, 1), gst_libde265_dec_init\<lparr>width := 640, height := 480\<rparr>) \<and>
   warnings (gst_libde265_dec_init\<lparr>width := 640, height := 480\<rparr>) = []"
  by (simp add: gst_libde265_image_available_def gst_libde265_dec_init_def fps_above_1000_def
      round_to_float_def)

subsection \<open>Plane copy/convert engine\<close>

text \<open>
  Widening an 8-bit sample by a left shift of at most 8 and narrowing the result by a right
  shift of the same amount gives the sample back.
\<close>

lemma widen_narrow_sample:
  assumes "0 \<le> k" "k \<le> 8" "0 \<le> x" "x < 256"
  shows "\<exists>y. c_shl k x = Some y \<and> y < 65536 \<and> c_shr k y = Some x"
proof -
  have "(2::int) ^ nat k \<le> 2 ^ 8"
    using assms by (intro power_increasing) simp_all
  then have "x * 2 ^ nat k \<le> x * 2 ^ 8"
    using assms by (intro mult_left_mono) simp_all
  also have "\<dots> < 65536"
    using assms by simp
  finally have b: "push_bit (nat k) x < 65536"
    by (simp add: push_bit_eq_mult)
  then have "c_shl k x = Some (push_bit (nat k) x)"
    using assms by (simp add: c_shl_def)
  moreover have "c_shr k (push_bit (nat k) x) = Some x"
    using assms by (simp add: c_shr_def drop_bit_push_bit)
  ultimately show ?thesis using b by simp
qed

lemma copy_plane_negative_shift:
  assumes bits: "8 < p_bits_per_pixel p" "p_bits_per_pixel p < max_bits"
    and rows: "0 < p_height p"
    and size: "2 \<le> min (p_stride p) (p_width p * nat ((max_bits + 7) div 8))"
    and src: "2 \<le> length (p_src p)"
  shows "copy_plane max_bits p dd = Inl Undefined_shift"
proof -
  obtain h where h: "p_height p = Suc h"
    using rows by (cases "p_height p") simp_all
  obtain n where n: "min (p_stride p) (p_width p * nat ((max_bits + 7) div 8)) div 2 = Suc n"
    using size by (cases "min (p_stride p) (p_width p * nat ((max_bits + 7) div 8)) div 2") auto
  have ld: "load16 (p_src p) 0 = Some (uint (p_src p ! 0) + 256 * uint (p_src p ! 1))"
    using src by (simp add: load16_def)
  have sh: "c_shr (p_bits_per_pixel p - max_bits) v = None" for v
    using bits by (simp add: c_shr_def)
  show ?thesis
    using bits by (simp add: copy_plane_def Let_def h n ld sh)
qed

lemma row_loop_memcpy:
  assumes "h = 0 \<or> s + (h - 1) * stride + w \<le> length src"
    and "d + h * w \<le> length dest"
  shows "row_loop h (\<lambda>src s dest d. memcpy dest d src s w) stride w src s dest d
       = Inr (take d dest @ concat (map (\<lambda>r. take w (drop (s + r * stride) src)) [0..<h])
                @ drop (d + h * w) dest,
              d + h * w)"
  using assms
proof (induction h arbitrary: s dest d)
  case 0
  then show ?case by simp
next
  case (Suc h)
  define dest' where "dest' = take d dest @ take w (drop s src) @ drop (d + w) dest"
  have sb: "s + w \<le> length src"
    using Suc.prems(1) by simp
  have db: "d + w \<le> length dest"
    using Suc.prems(2) by simp
  have row: "memcpy dest d src s w = Inr dest'"
    using sb db by (simp add: memcpy_def dest'_def)
  have len: "length dest' = length dest"
    using sb db by (simp add: dest'_def)
  have pre: "h = 0 \<or> (s + stride) + (h - 1) * stride + w \<le> length src"
    using Suc.prems(1) by (cases h) simp_all
  have "row_loop h (\<lambda>src s dest d. memcpy dest d src s w) stride w src (s + stride) dest' (d + w)
      = Inr (take (d + w) dest'
               @ concat (map (\<lambda>r. take w (drop (s + stride + r * stride) src)) [0..<h])
               @ drop (d + w + h * w) dest',
             d + w + h * w)"
    using Suc.IH [OF pre, of "d + w" dest'] Suc.prems(2) len by simp
  moreover have "take (d + w) dest' = take d dest @ take w (drop s src)"
    using sb db by (simp add: dest'_def)
  moreover have "drop (d + w + h * w) dest' = drop (d + Suc h * w) dest"
  proof -
    have e: "d + Suc h * w = d + w + h * w"
      by simp
    have "drop (d + w + k) dest' = drop (d + w + k) dest" for k
      using sb db by (simp add: dest'_def ac_simps)
    then show ?thesis
      unfolding e .
  qed
  moreover have "map (\<lambda>r. take w (drop (s + r * stride) src)) [0..<Suc h]
      = take w (drop s src) # map (\<lambda>r. take w (drop (s + stride + r * stride) src)) [0..<h]"
    by (simp add: upt_conv_Cons map_Suc_upt [symmetric] add.assoc del: upt_Suc)
  ultimately show ?case
    using row by (simp add: add.assoc del: upt_Suc)
qed


lemma concat_rows_contiguous:
  "h * w \<le> length src \<Longrightarrow>
   concat (map (\<lambda>r. take w (drop (r * w) src)) [0..<h]) = take (h * w) src"
proof (induction h)
  case 0
  then show ?case by simp
next
  case (Suc h)
  then have "concat (map (\<lambda>r. take w (drop (r * w) src)) [0..<h]) = take (h * w) src"
    by simp
  then have "concat (map (\<lambda>r. take w (drop (r * w) src)) [0..<Suc h])
      = take (h * w) src @ take w (drop (h * w) src)"
    by simp
  also have "\<dots> = take (h * w + w) src"
    by (simp add: take_add)
  finally show ?case by (simp add: add.commute)
qed

lemma copy_plane_equal_depth:
  assumes eq: "p_bits_per_pixel p = max_bits"
    and src: "p_height p = 0 \<or> (p_height p - 1) * p_stride p + p_width p \<le> length (p_src p)"
    and dst: "d + p_height p * p_width p \<le> length dest"
  shows "copy_plane max_bits p (dest, d)
       = Inr (take d dest
                @ concat (map (\<lambda>r. take (p_width p) (drop (r * p_stride p) (p_src p))) [0..<p_height p])
                @ drop (d + p_height p * p_width p) dest,
              d + p_height p * p_width p)"
proof (cases "p_stride p = p_width p")
  case True
  have b: "p_height p * p_width p \<le> length (p_src p)"
    using src True by (cases "p_height p") auto
  have "copy_plane max_bits p (dest, d)
      = Inr (take d dest @ take (p_height p * p_width p) (p_src p)
               @ drop (d + p_height p * p_width p) dest,
             d + p_height p * p_width p)"
    using eq True b dst by (simp add: copy_plane_def Let_def memcpy_def)
  then show ?thesis
    using concat_rows_contiguous [OF b] True by simp
next
  case False
  have s0: "p_height p = 0 \<or> 0 + (p_height p - 1) * p_stride p + p_width p \<le> length (p_src p)"
    using src by simp
  show ?thesis
    using eq False row_loop_memcpy [OF s0 dst]
    by (simp add: copy_plane_def Let_def)
qed

text \<open>The 8-bit plane of a 10-bit picture: each sample is shifted left by 2 into 16 bits.\<close>

lemma widen_8bit_sample:
  "copy_plane 10 \<lparr>p_width = 1, p_height = 1, p_src = [3], p_stride = 1, p_bits_per_pixel = 8\<rparr>
     ([0, 0], 0) = Inr ([12, 0], 2)"
  by (simp add: copy_plane_def Let_def load8_def c_shl_def store16_def)

text \<open>
  C6. A plane of intermediate depth is not shifted left. For a 9-bit plane in a 10-bit
  output, the third branch computes \<^verbatim>\<open>shift = 9 - 10\<close> and evaluates
  \<^verbatim>\<open>*s >> shift\<close>: a right shift by -1, which C leaves undefined, where the claim
  requires the sample 1 to become 2. (\<open>copy_plane_negative_shift\<close> above: the same
  happens at the first sample of every plane deeper than 8 bits and shallower than the
  output.)
\<close>

theorem copy_plane_intermediate_depth:
  "copy_plane 10 \<lparr>p_width = 1, p_height = 1, p_src = [1, 0], p_stride = 2, p_bits_per_pixel = 9\<rparr>
     ([0, 0], 0) = Inl Undefined_shift"
  by (simp add: copy_plane_def Let_def load16_def c_shr_def)

text \<open>
  C9. A plane as deep as the output is not always reproduced. For a 10-bit plane in a
  10-bit output, a row of 2 samples is 4 bytes; the last branch copies \<^verbatim>\<open>width\<close> = 2
  bytes of it and advances \<^verbatim>\<open>dest\<close> by 2. (\<open>copy_plane_equal_depth\<close> above: the
  branch copies \<^verbatim>\<open>width\<close> bytes of each row, which is the whole visible row only
  when a sample is one byte.)
\<close>

theorem copy_plane_equal_depth_10bit:
  "copy_plane 10 \<lparr>p_width = 2, p_height = 1, p_src = [1, 2, 3, 0], p_stride = 4, p_bits_per_pixel = 10\<rparr>
     ([0, 0, 0, 0], 0) = Inr ([1, 2, 0, 0], 2)"
  by (simp add: copy_plane_def Let_def memcpy_def)

subsection \<open>Zero-copy frame bridge\<close>

lemma default_get_buffer_shape:
  assumes "default_get_buffer ok img t = (ret, s')"
  shows "refs s' = refs t \<and> next_ref s' = next_ref t \<and> held s' = held t \<and>
         events s' = events t @ [Default_get_buffer img] \<and>
         (\<forall>ip. fst ip \<noteq> img \<longrightarrow> user_data s' ip = user_data t ip) \<and>
         (ret \<noteq> 0 \<longrightarrow> user_data s' (img, 0) = None)"
  using assms by (auto simp: default_get_buffer_def split: if_splits)

lemma set_image_planes_shape:
  assumes "set_image_planes spec host img r planes s = (ok, s')"
  shows "refs s' = refs s \<and> next_ref s' = next_ref s \<and> held s' = held s \<and> events s' = events s \<and>
         (\<forall>ip. user_data s' ip = user_data s ip \<or> (fst ip = img \<and> user_data s' ip = Some r)) \<and>
         (ok \<longrightarrow> (\<forall>p\<in>set planes. user_data s' (img, p) = Some r))"
  using assms
proof (induction planes arbitrary: s)
  case Nil
  then show ?case by simp
next
  case (Cons i planes)
  show ?case
  proof (cases "plane_stride host i mod spec_alignment spec \<noteq> 0 \<or> plane_data host i mod spec_alignment spec \<noteq> 0")
    case True
    with Cons.prems have "ok = False" "s' = s"
      by (auto split: if_splits)
    then show ?thesis by simp
  next
    case False
    define s2 where "s2 = s\<lparr>user_data := (user_data s)((img, i) := Some r)\<rparr>"
    from False Cons.prems have rec: "set_image_planes spec host img r planes s2 = (ok, s')"
      by (simp add: s2_def)
    note IH = Cons.IH [OF rec]
    have u: "\<forall>ip. user_data s' ip = user_data s ip \<or> (fst ip = img \<and> user_data s' ip = Some r)"
    proof
      fix ip
      from IH have "user_data s' ip = user_data s2 ip \<or> (fst ip = img \<and> user_data s' ip = Some r)"
        by blast
      then show "user_data s' ip = user_data s ip \<or> (fst ip = img \<and> user_data s' ip = Some r)"
        by (cases "ip = (img, i)") (auto simp: s2_def)
    qed
    have "user_data s' (img, i) = user_data s2 (img, i) \<or> user_data s' (img, i) = Some r"
      using IH by auto
    then have "user_data s' (img, i) = Some r"
      by (auto simp: s2_def)
    with IH u show ?thesis
      by (simp add: s2_def)
  qed
qed


lemma release_fresh_ref:
  assumes "refs t r = Some \<lparr>frame = f, buffer = Some b, mapped = m\<rparr>"
  shows "gst_libde265_dec_release_frame_ref r t =
         t\<lparr>events := events t @ (if m then [Frame_unmap r] else [])
                    @ [Codec_frame_unref f, Buffer_unref b, Free_ref r],
           refs := (refs t)(r := None)\<rparr>"
  using assms by (simp add: gst_libde265_dec_release_frame_ref_def)

lemma get_buffer_shape:
  assumes fresh: "refs s (next_ref s) = None"
    and call: "gst_libde265_dec_get_buffer spec host img s = (ret, s')"
  shows "held s' = held s \<and>
         (\<forall>ip. fst ip \<noteq> img \<longrightarrow> user_data s' ip = user_data s ip) \<and>
         ((refs s' = refs s \<and> next_ref s' = next_ref s \<and>
           events s' = events s @ [Default_get_buffer img] \<and>
           (ret \<noteq> 0 \<longrightarrow> user_data s' (img, 0) = None))
          \<or>
          (refs s' = refs s \<and> next_ref s' = Suc (next_ref s) \<and>
           (\<exists>f b m. events s' = events s @ Malloc_ref (next_ref s)
                # (if m then [Frame_map (next_ref s), Frame_unmap (next_ref s)] else [])
                @ [Codec_frame_unref f, Buffer_unref b, Free_ref (next_ref s),
                   Default_get_buffer img]) \<and>
           (ret \<noteq> 0 \<longrightarrow> user_data s' (img, 0) = None))
          \<or>
          (ret = 1 \<and> next_ref s' = Suc (next_ref s) \<and>
           (\<exists>f b. refs s' = (refs s)(next_ref s \<mapsto> \<lparr>frame = f, buffer = Some b, mapped = True\<rparr>)) \<and>
           events s' = events s @ [Malloc_ref (next_ref s), Frame_map (next_ref s)] \<and>
           user_data s' (img, 0) = Some (next_ref s)))"
proof -
  define r where "r = next_ref s"
  define w where "w = (spec_width spec + spec_alignment spec - 1) div spec_alignment spec
                    * spec_alignment spec"
  define fmt where "fmt = gst_libde265_get_video_format (spec_chroma spec) (spec_bits_per_pixel spec 0)"
  define G where "G \<longleftrightarrow> (w \<noteq> visible_width spec \<or> spec_height spec \<noteq> visible_height spec) \<or>
      (spec_chroma spec \<noteq> de265_chroma_mono \<and>
         (spec_bits_per_pixel spec 0 \<noteq> spec_bits_per_pixel spec 1 \<or>
          spec_bits_per_pixel spec 0 \<noteq> spec_bits_per_pixel spec 2 \<or>
          spec_bits_per_pixel spec 1 \<noteq> spec_bits_per_pixel spec 2)) \<or>
      fmt = GST_VIDEO_FORMAT_UNKNOWN \<or> GST_VIDEO_FORMAT_INFO_BITS fmt \<noteq> spec_bits_per_pixel spec 0"
  define s1 where "s1 = s\<lparr>bridge_dec :=
      snd (gst_libde265_image_available w (spec_height spec) (host_fps host) (bridge_dec s))\<rparr>"
  have plain: ?thesis if "default_get_buffer (default_allocation host) img t = (ret, s')"
      "refs t = refs s" "next_ref t = next_ref s" "held t = held s" "events t = events s"
      "user_data t = user_data s" for t
    using default_get_buffer_shape [OF that(1)] that(2-)
    by simp
  have failed: ?thesis
    if d: "default_get_buffer (default_allocation host) img (gst_libde265_dec_release_frame_ref r t) = (ret, s')"
      and t: "refs t = (refs s)(r \<mapsto> \<lparr>frame = f, buffer = Some b, mapped = m\<rparr>)"
        "next_ref t = Suc r" "held t = held s"
        "events t = events s @ Malloc_ref r # (if m then [Frame_map r] else [])"
        "\<forall>ip. fst ip \<noteq> img \<longrightarrow> user_data t ip = user_data s ip" for t f b m
  proof -
    have rr: "refs t r = Some \<lparr>frame = f, buffer = Some b, mapped = m\<rparr>"
      using t(1) by simp
    have restored: "(refs t)(r := None) = refs s"
      using t(1) fresh by (auto simp: r_def fun_eq_iff)
    note rel = release_fresh_ref [OF rr]
    from default_get_buffer_shape [OF d]
    have "refs s' = refs s" "next_ref s' = Suc r" "held s' = held s"
      "events s' = events s @ Malloc_ref r # (if m then [Frame_map r] else [])
          @ (if m then [Frame_unmap r] else []) @ [Codec_frame_unref f, Buffer_unref b, Free_ref r]
          @ [Default_get_buffer img]"
      "\<forall>ip. fst ip \<noteq> img \<longrightarrow> user_data s' ip = user_data s ip"
      "ret \<noteq> 0 \<longrightarrow> user_data s' (img, 0) = None"
      using t restored by (simp_all add: rel)
    then have "refs s' = refs s \<and> next_ref s' = Suc (next_ref s) \<and>
           (\<exists>f b m. events s' = events s @ Malloc_ref (next_ref s)
                # (if m then [Frame_map (next_ref s), Frame_unmap (next_ref s)] else [])
                @ [Codec_frame_unref f, Buffer_unref b, Free_ref (next_ref s),
                   Default_get_buffer img]) \<and>
           (ret \<noteq> 0 \<longrightarrow> user_data s' (img, 0) = None)"
      unfolding r_def by (intro conjI exI [of _ f] exI [of _ b] exI [of _ m]) simp_all
    with \<open>held s' = held s\<close> \<open>\<forall>ip. fst ip \<noteq> img \<longrightarrow> user_data s' ip = user_data s ip\<close>
    show ?thesis by blast
  qed
  show ?thesis
  proof (cases "get_frame host")
    case None
    with call have "default_get_buffer (default_allocation host) img s = (ret, s')"
      by (simp add: gst_libde265_dec_get_buffer_def)
    then show ?thesis by (rule plain) simp_all
  next
    case (Some f)
    show ?thesis
    proof (cases G)
      case True
      with call Some have "default_get_buffer (default_allocation host) img s = (ret, s')"
        by (auto simp: gst_libde265_dec_get_buffer_def Let_def G_def w_def fmt_def split: if_splits)
      then show ?thesis by (rule plain) simp_all
    next
      case False
      show ?thesis
      proof (cases "alloc_output_frame host")
        case None
        with call Some False have "default_get_buffer (default_allocation host) img s1 = (ret, s')"
          by (auto simp: gst_libde265_dec_get_buffer_def Let_def G_def w_def fmt_def s1_def
              split: if_splits)
        then show ?thesis by (rule plain) (simp_all add: s1_def)
      next
        case b: (Some b)
        define s2 where "s2 = s1\<lparr>next_ref := Suc r,
            refs := (refs s1)(r \<mapsto> \<lparr>frame = f, buffer = Some b, mapped = False\<rparr>),
            events := events s1 @ [Malloc_ref r]\<rparr>"
        define s3 where "s3 = s2\<lparr>refs := (refs s2)(r \<mapsto> \<lparr>frame = f, buffer = Some b, mapped = True\<rparr>),
            events := events s2 @ [Frame_map r]\<rparr>"
        show ?thesis
        proof (cases "frame_map host")
          case False
          with call Some \<open>\<not> G\<close> b
          have "default_get_buffer (default_allocation host) img
                  (gst_libde265_dec_release_frame_ref r s2) = (ret, s')"
            by (auto simp: gst_libde265_dec_get_buffer_def Let_def G_def w_def fmt_def s1_def s2_def r_def
                split: if_splits)
          then show ?thesis
            by (rule failed [where m = False]) (simp_all add: s2_def s1_def)
        next
          case True
          show ?thesis
          proof (cases "plane_stride host 0 < w * comp_pstride host \<or> comp_height host < spec_height spec")
            case bad: True
            with call Some \<open>\<not> G\<close> b True
            have "default_get_buffer (default_allocation host) img
                    (gst_libde265_dec_release_frame_ref r s3) = (ret, s')"
              by (auto simp: gst_libde265_dec_get_buffer_def Let_def G_def w_def fmt_def s1_def s2_def
                  s3_def r_def split: if_splits)
            then show ?thesis
              by (rule failed [where m = True]) (simp_all add: s3_def s2_def s1_def)
          next
            case good: False
            obtain ok s4 where planes: "set_image_planes spec host img r [0, 1, 2] s3 = (ok, s4)"
              by (cases "set_image_planes spec host img r [0, 1, 2] s3")
            note sh = set_image_planes_shape [OF planes]
            show ?thesis
            proof (cases ok)
              case False
              with call Some \<open>\<not> G\<close> b True good planes
              have "default_get_buffer (default_allocation host) img
                      (gst_libde265_dec_release_frame_ref r s4) = (ret, s')"
                by (auto simp: gst_libde265_dec_get_buffer_def Let_def G_def w_def fmt_def s1_def s2_def
                    s3_def r_def simp del: set_image_planes.simps split: if_splits)
              moreover have "\<forall>ip. fst ip \<noteq> img \<longrightarrow> user_data s4 ip = user_data s ip"
                using sh by (auto simp: s3_def s2_def s1_def)
              ultimately show ?thesis
                using sh by (intro failed [where m = True and t = s4]) (simp_all add: s3_def s2_def s1_def)
            next
              case ok: True
              with call Some \<open>\<not> G\<close> b True good planes
              have res: "ret = 1" "s' = s4"
                by (auto simp: gst_libde265_dec_get_buffer_def Let_def G_def w_def fmt_def s1_def s2_def
                    s3_def r_def simp del: set_image_planes.simps split: if_splits)
              have "user_data s4 (img, 0) = Some r"
                using sh ok by simp
              moreover have "\<forall>ip. fst ip \<noteq> img \<longrightarrow> user_data s4 ip = user_data s ip"
                using sh by (auto simp: s3_def s2_def s1_def)
              moreover have "\<exists>fa ba. refs s4 = (refs s)(next_ref s \<mapsto> \<lparr>frame = fa, buffer = Some ba, mapped = True\<rparr>)"
                using sh by (intro exI [of _ f] exI [of _ b]) (simp add: s3_def s2_def s1_def r_def)
              ultimately show ?thesis
                using sh res by (simp add: s3_def s2_def s1_def r_def)
            qed
          qed
        qed
      qed
    qed
  qed
qed









lemma bridge_inv_init: "bridge_inv bridge_init"
  by (simp add: bridge_inv_def inv_unused_def inv_live_def inv_freed_def inv_valid_def inv_held_def
      bridge_init_def ev_count_def)

lemma ev_count_append:
  "events s' = events s @ es \<Longrightarrow> ev_count s' e = ev_count s e + count_list es e"
  by (simp add: ev_count_def)

lemma get_buffer_inv:
  assumes inv: "bridge_inv s"
    and nh: "img \<notin> held s"
    and call: "gst_libde265_dec_get_buffer spec host img s = (ret, s')"
  shows "bridge_inv (if ret \<noteq> 0 then s'\<lparr>held := insert img (held s')\<rparr> else s')"
proof -
  define n where "n = next_ref s"
  define t where "t = (if ret \<noteq> 0 then s'\<lparr>held := insert img (held s')\<rparr> else s')"
  have fresh: "refs s (next_ref s) = None"
    using inv by (simp add: bridge_inv_def inv_unused_def)
  note sh = get_buffer_shape [OF fresh call]
  have t: "refs t = refs s'" "next_ref t = next_ref s'" "events t = events s'" "user_data t = user_data s'"
    "ev_count t = ev_count s'"
    by (simp_all add: t_def ev_count_def fun_eq_iff)
  have others: "\<forall>i\<in>held s. user_data t (i, 0) = user_data s (i, 0)"
    using sh nh by (auto simp: t)
  from sh consider
    (plain) "refs s' = refs s" "next_ref s' = n" "events s' = events s @ [Default_get_buffer img]"
      "ret \<noteq> 0 \<longrightarrow> user_data s' (img, 0) = None"
  | (failed) f b m where "refs s' = refs s" "next_ref s' = Suc n"
      "events s' = events s @ Malloc_ref n # (if m then [Frame_map n, Frame_unmap n] else [])
          @ [Codec_frame_unref f, Buffer_unref b, Free_ref n, Default_get_buffer img]"
      "ret \<noteq> 0 \<longrightarrow> user_data s' (img, 0) = None"
  | (success) f b where "ret = 1" "next_ref s' = Suc n"
      "refs s' = (refs s)(n \<mapsto> \<lparr>frame = f, buffer = Some b, mapped = True\<rparr>)"
      "events s' = events s @ [Malloc_ref n, Frame_map n]"
      "user_data s' (img, 0) = Some n"
    unfolding n_def by blast
  then have "bridge_inv t"
  proof cases
    case plain
    have c: "ev_count s' e = ev_count s e + count_list [Default_get_buffer img] e" for e
      using ev_count_append [OF plain(3)] by simp
    have h: "held t = (if ret \<noteq> 0 then insert img (held s) else held s)"
      using sh by (simp add: t_def)
    have "inv_unused t" "inv_live t" "inv_freed t" "inv_valid t"
      using inv plain(1,2)
      by (simp_all add: bridge_inv_def inv_unused_def inv_live_def inv_freed_def inv_valid_def t c n_def)
    moreover have "inv_held t"
      using inv others plain(1,4) h
      unfolding bridge_inv_def inv_held_def t
      by (auto split: if_splits; metis)
    ultimately show ?thesis by (simp add: bridge_inv_def)
  next
    case failed
    have c: "ev_count s' e = ev_count s e + count_list (Malloc_ref n # (if m then [Frame_map n, Frame_unmap n] else [])
          @ [Codec_frame_unref f, Buffer_unref b, Free_ref n, Default_get_buffer img]) e" for e
      using ev_count_append [OF failed(3)] by simp
    have h: "held t = (if ret \<noteq> 0 then insert img (held s) else held s)"
      using sh by (simp add: t_def)
    have un: "refs s n = None" "ev_count s (Malloc_ref n) = 0" "ev_count s (Frame_map n) = 0"
      "ev_count s (Frame_unmap n) = 0" "ev_count s (Free_ref n) = 0"
      using inv by (simp_all add: bridge_inv_def inv_unused_def n_def)
    have "inv_unused t"
      using inv failed(1,2)
      by (auto simp: bridge_inv_def inv_unused_def t c n_def)
    moreover have "inv_live t"
      using inv failed(1,2) un
      unfolding bridge_inv_def inv_live_def t c
      by (auto simp: n_def)
    moreover have "inv_freed t"
      unfolding inv_freed_def t failed(1,2)
    proof (intro allI impI)
      fix r assume r: "r < Suc n" "refs s r = None"
      show "ev_count s' (Malloc_ref r) = 1 \<and> ev_count s' (Free_ref r) = 1 \<and>
            ev_count s' (Frame_map r) \<le> 1 \<and> ev_count s' (Frame_unmap r) = ev_count s' (Frame_map r)"
      proof (cases "r = n")
        case True
        then show ?thesis using un c by simp
      next
        case False
        with r have "r < next_ref s" by (simp add: n_def)
        with inv r(2) have "ev_count s (Malloc_ref r) = 1 \<and> ev_count s (Free_ref r) = 1 \<and>
            ev_count s (Frame_map r) \<le> 1 \<and> ev_count s (Frame_unmap r) = ev_count s (Frame_map r)"
          by (simp add: bridge_inv_def inv_freed_def)
        with False show ?thesis using c by simp
      qed
    qed
    moreover have "inv_valid t"
      using inv by (simp add: bridge_inv_def inv_valid_def c t)
    moreover have "inv_held t"
      using inv others failed(1,4) h
      unfolding bridge_inv_def inv_held_def t
      by (auto split: if_splits; metis)
    ultimately show ?thesis by (simp add: bridge_inv_def)
  next
    case success
    have c: "ev_count s' e = ev_count s e + count_list [Malloc_ref n, Frame_map n] e" for e
      using ev_count_append [OF success(4)] by simp
    have h: "held t = insert img (held s)"
      using sh success(1) by (simp add: t_def)
    have un: "refs s n = None" "ev_count s (Malloc_ref n) = 0" "ev_count s (Frame_map n) = 0"
      "ev_count s (Frame_unmap n) = 0" "ev_count s (Free_ref n) = 0"
      using inv by (simp_all add: bridge_inv_def inv_unused_def n_def)
    have live_lt: "refs s r \<noteq> None \<Longrightarrow> r \<noteq> n" for r
      using un(1) by auto
    have "inv_unused t"
      using inv success(2,3)
      by (auto simp: bridge_inv_def inv_unused_def t c n_def)
    moreover have "inv_live t"
      using inv un
      unfolding bridge_inv_def inv_live_def t success(3) c
      by (auto simp: n_def)
    moreover have "inv_freed t"
      unfolding inv_freed_def t success(2,3)
    proof (intro allI impI)
      fix r assume r: "r < Suc n" "((refs s)(n \<mapsto> \<lparr>frame = f, buffer = Some b, mapped = True\<rparr>)) r = None"
      then have "r \<noteq> n" "refs s r = None" "r < next_ref s"
        by (auto simp: n_def split: if_splits)
      with inv have "ev_count s (Malloc_ref r) = 1 \<and> ev_count s (Free_ref r) = 1 \<and>
            ev_count s (Frame_map r) \<le> 1 \<and> ev_count s (Frame_unmap r) = ev_count s (Frame_map r)"
        by (simp add: bridge_inv_def inv_freed_def)
      with \<open>r \<noteq> n\<close> show "ev_count s' (Malloc_ref r) = 1 \<and> ev_count s' (Free_ref r) = 1 \<and>
            ev_count s' (Frame_map r) \<le> 1 \<and> ev_count s' (Frame_unmap r) = ev_count s' (Frame_map r)"
        using c by simp
    qed
    moreover have "inv_valid t"
      using inv by (simp add: bridge_inv_def inv_valid_def c t)
    moreover have "inv_held t"
    proof -
      have ih: "inv_held s" using inv by (simp add: bridge_inv_def)
      have ud_img: "user_data t (img, 0) = Some n"
        using success(5) by (simp add: t)
      have no_n: "\<forall>i\<in>held s. user_data s (i, 0) \<noteq> Some n"
        using ih un(1) by (auto simp: inv_held_def)
      show ?thesis
        unfolding inv_held_def h t(1) success(3)
        using ih others ud_img no_n nh
        by (auto simp: inv_held_def; metis)
    qed
    ultimately show ?thesis by (simp add: bridge_inv_def)
  qed
  then show ?thesis by (simp add: t_def)
qed

lemma release_buffer_default:
  assumes "user_data s (img, 0) = None"
  shows "gst_libde265_dec_release_buffer img s = s\<lparr>events := events s @ [Default_release_buffer img]\<rparr>"
  using assms by (simp add: gst_libde265_dec_release_buffer_def)

lemma held_ref_live:
  assumes inv: "bridge_inv s" and h: "img \<in> held s" and ud: "user_data s (img, 0) = Some r"
  shows "\<exists>ref. refs s r = Some ref \<and> mapped ref"
proof -
  have "\<forall>img\<in>held s. \<forall>r. user_data s (img, 0) = Some r \<longrightarrow> refs s r \<noteq> None"
    using inv by (simp add: bridge_inv_def inv_held_def)
  with h ud have "refs s r \<noteq> None"
    by blast
  then obtain ref where ref: "refs s r = Some ref"
    by (cases "refs s r") simp_all
  moreover have "\<forall>r ref. refs s r = Some ref \<longrightarrow> mapped ref"
    using inv by (simp add: bridge_inv_def inv_live_def)
  ultimately show ?thesis by blast
qed

lemma live_ref_allocated:
  assumes inv: "bridge_inv s" and ref: "refs s r = Some ref"
  shows "r < next_ref s"
proof (rule ccontr)
  assume "\<not> r < next_ref s"
  then have "next_ref s \<le> r" by simp
  moreover have "\<forall>r\<ge>next_ref s. refs s r = None"
    using inv by (simp add: bridge_inv_def inv_unused_def)
  ultimately have "refs s r = None" by blast
  with ref show False by simp
qed

lemma release_buffer_frame_ref:
  assumes inv: "bridge_inv s" and h: "img \<in> held s" and ud: "user_data s (img, 0) = Some r"
  shows "\<exists>ref. refs s r = Some ref \<and> mapped ref \<and>
           gst_libde265_dec_release_buffer img s =
             s\<lparr>events := events s @ [Frame_unmap r, Codec_frame_unref (frame ref)]
                        @ (case buffer ref of None \<Rightarrow> [] | Some b \<Rightarrow> [Buffer_unref b])
                        @ [Free_ref r],
               refs := (refs s)(r := None)\<rparr>"
proof -
  from held_ref_live [OF inv h ud] obtain ref where ref: "refs s r = Some ref" "mapped ref"
    by blast
  have "gst_libde265_dec_release_buffer img s =
             s\<lparr>events := events s @ [Frame_unmap r, Codec_frame_unref (frame ref)]
                        @ (case buffer ref of None \<Rightarrow> [] | Some b \<Rightarrow> [Buffer_unref b])
                        @ [Free_ref r],
               refs := (refs s)(r := None)\<rparr>"
    using ref ud by (simp add: gst_libde265_dec_release_buffer_def gst_libde265_dec_release_frame_ref_def)
  with ref show ?thesis by blast
qed


lemma inv_heldI:
  assumes "\<And>i r. i \<in> held t \<Longrightarrow> user_data t (i, 0) = Some r \<Longrightarrow> refs t r \<noteq> None"
    and "\<And>r. refs t r \<noteq> None \<Longrightarrow> \<exists>i\<in>held t. user_data t (i, 0) = Some r"
    and "\<And>i i' r. i \<in> held t \<Longrightarrow> i' \<in> held t \<Longrightarrow> user_data t (i, 0) = Some r \<Longrightarrow>
           user_data t (i', 0) = Some r \<Longrightarrow> i = i'"
  shows "inv_held t"
  unfolding inv_held_def using assms by blast

lemma inv_heldD1: "inv_held s \<Longrightarrow> i \<in> held s \<Longrightarrow> user_data s (i, 0) = Some r \<Longrightarrow> refs s r \<noteq> None"
  unfolding inv_held_def by blast

lemma inv_heldD2: "inv_held s \<Longrightarrow> refs s r \<noteq> None \<Longrightarrow> \<exists>i\<in>held s. user_data s (i, 0) = Some r"
  unfolding inv_held_def by blast

lemma inv_heldD3:
  "inv_held s \<Longrightarrow> i \<in> held s \<Longrightarrow> i' \<in> held s \<Longrightarrow> user_data s (i, 0) = Some r \<Longrightarrow>
   user_data s (i', 0) = Some r \<Longrightarrow> i = i'"
  unfolding inv_held_def by blast

lemma release_buffer_inv:
  assumes inv: "bridge_inv s" and h: "img \<in> held s"
  shows "bridge_inv ((gst_libde265_dec_release_buffer img s)\<lparr>held := held s - {img}\<rparr>)"
proof (cases "user_data s (img, 0)")
  case None
  define t where "t = s\<lparr>events := events s @ [Default_release_buffer img], held := held s - {img}\<rparr>"
  have c: "ev_count t (Malloc_ref q) = ev_count s (Malloc_ref q)"
    "ev_count t (Frame_map q) = ev_count s (Frame_map q)"
    "ev_count t (Frame_unmap q) = ev_count s (Frame_unmap q)"
    "ev_count t (Free_ref q) = ev_count s (Free_ref q)"
    "ev_count t (Invalid_ref q) = ev_count s (Invalid_ref q)" for q
    by (simp_all add: t_def ev_count_def)
  have t: "refs t = refs s" "next_ref t = next_ref s" "held t = held s - {img}"
    "user_data t = user_data s"
    by (simp_all add: t_def)
  have ih: "inv_held s" using inv by (simp add: bridge_inv_def)
  have "inv_unused t"
    using inv by (simp add: bridge_inv_def inv_unused_def c t)
  moreover have "inv_live t"
    using inv by (simp add: bridge_inv_def inv_live_def c t)
  moreover have "inv_freed t"
    using inv by (simp add: bridge_inv_def inv_freed_def c t)
  moreover have "inv_valid t"
    using inv by (simp add: bridge_inv_def inv_valid_def c)
  moreover have "inv_held t"
  proof (rule inv_heldI)
    fix i r assume "i \<in> held t" "user_data t (i, 0) = Some r"
    then show "refs t r \<noteq> None"
      using inv_heldD1 [OF ih, of i r] by (simp add: t)
  next
    fix r assume "refs t r \<noteq> None"
    then obtain i where i: "i \<in> held s" "user_data s (i, 0) = Some r"
      using inv_heldD2 [OF ih, of r] by (auto simp: t)
    with None have "i \<noteq> img" by auto
    with i show "\<exists>i\<in>held t. user_data t (i, 0) = Some r"
      by (auto simp: t)
  next
    fix i i' r assume "i \<in> held t" "i' \<in> held t" "user_data t (i, 0) = Some r" "user_data t (i', 0) = Some r"
    then show "i = i'"
      using inv_heldD3 [OF ih, of i i' r] by (simp add: t)
  qed
  ultimately have "bridge_inv t" by (simp add: bridge_inv_def)
  then show ?thesis
    using release_buffer_default [OF None] by (simp add: t_def)
next
  case (Some r)
  from release_buffer_frame_ref [OF inv h Some] obtain ref where
    ref: "refs s r = Some ref" "mapped ref" and
    rel: "gst_libde265_dec_release_buffer img s =
             s\<lparr>events := events s @ [Frame_unmap r, Codec_frame_unref (frame ref)]
                        @ (case buffer ref of None \<Rightarrow> [] | Some b \<Rightarrow> [Buffer_unref b])
                        @ [Free_ref r],
               refs := (refs s)(r := None)\<rparr>"
    by blast
  define es where "es = [Frame_unmap r, Codec_frame_unref (frame ref)]
                        @ (case buffer ref of None \<Rightarrow> [] | Some b \<Rightarrow> [Buffer_unref b])
                        @ [Free_ref r]"
  define t where "t = s\<lparr>events := events s @ es, refs := (refs s)(r := None), held := held s - {img}\<rparr>"
  have cnt: "count_list es (Malloc_ref q) = 0" "count_list es (Frame_map q) = 0"
    "count_list es (Frame_unmap q) = (if q = r then 1 else 0)"
    "count_list es (Free_ref q) = (if q = r then 1 else 0)"
    "count_list es (Invalid_ref q) = 0" for q
    by (simp_all add: es_def split: option.splits)
  have c: "ev_count t (Malloc_ref q) = ev_count s (Malloc_ref q)"
    "ev_count t (Frame_map q) = ev_count s (Frame_map q)"
    "ev_count t (Frame_unmap q) = ev_count s (Frame_unmap q) + (if q = r then 1 else 0)"
    "ev_count t (Free_ref q) = ev_count s (Free_ref q) + (if q = r then 1 else 0)"
    "ev_count t (Invalid_ref q) = ev_count s (Invalid_ref q)" for q
    by (simp_all add: t_def ev_count_def cnt)
  have t: "refs t = (refs s)(r := None)" "next_ref t = next_ref s" "held t = held s - {img}"
    "user_data t = user_data s"
    by (simp_all add: t_def)
  have ih: "inv_held s" using inv by (simp add: bridge_inv_def)
  have lv: "ev_count s (Malloc_ref r) = 1" "ev_count s (Frame_map r) = 1"
    "ev_count s (Frame_unmap r) = 0" "ev_count s (Free_ref r) = 0"
    using inv ref(1) by (simp_all add: bridge_inv_def inv_live_def)
  have rlt: "r < next_ref s"
    using live_ref_allocated [OF inv ref(1)] .
  have "inv_unused t"
    unfolding inv_unused_def
  proof (intro allI impI)
    fix q assume q: "next_ref t \<le> q"
    then have "q \<noteq> r" using rlt by (simp add: t)
    moreover have "refs s q = None \<and> ev_count s (Malloc_ref q) = 0 \<and>
        ev_count s (Frame_map q) = 0 \<and> ev_count s (Frame_unmap q) = 0 \<and> ev_count s (Free_ref q) = 0"
      using inv q by (simp add: bridge_inv_def inv_unused_def t)
    ultimately show "refs t q = None \<and> ev_count t (Malloc_ref q) = 0 \<and>
        ev_count t (Frame_map q) = 0 \<and> ev_count t (Frame_unmap q) = 0 \<and> ev_count t (Free_ref q) = 0"
      by (simp add: t c)
  qed
  moreover have "inv_live t"
    unfolding inv_live_def
  proof (intro allI impI)
    fix q rf assume q: "refs t q = Some rf"
    then have qr: "q \<noteq> r" and "refs s q = Some rf"
      by (auto simp: t split: if_splits)
    with inv have "mapped rf \<and> ev_count s (Malloc_ref q) = 1 \<and> ev_count s (Frame_map q) = 1 \<and>
        ev_count s (Frame_unmap q) = 0 \<and> ev_count s (Free_ref q) = 0"
      by (simp add: bridge_inv_def inv_live_def)
    with qr show "mapped rf \<and> ev_count t (Malloc_ref q) = 1 \<and> ev_count t (Frame_map q) = 1 \<and>
        ev_count t (Frame_unmap q) = 0 \<and> ev_count t (Free_ref q) = 0"
      by (simp add: c)
  qed
  moreover have "inv_freed t"
    unfolding inv_freed_def
  proof (intro allI impI)
    fix q assume q: "q < next_ref t" "refs t q = None"
    show "ev_count t (Malloc_ref q) = 1 \<and> ev_count t (Free_ref q) = 1 \<and>
          ev_count t (Frame_map q) \<le> 1 \<and> ev_count t (Frame_unmap q) = ev_count t (Frame_map q)"
    proof (cases "q = r")
      case True
      then show ?thesis using lv by (simp add: c)
    next
      case False
      with q have "q < next_ref s" "refs s q = None"
        by (simp_all add: t)
      with inv have "ev_count s (Malloc_ref q) = 1 \<and> ev_count s (Free_ref q) = 1 \<and>
          ev_count s (Frame_map q) \<le> 1 \<and> ev_count s (Frame_unmap q) = ev_count s (Frame_map q)"
        by (simp add: bridge_inv_def inv_freed_def)
      with False show ?thesis by (simp add: c)
    qed
  qed
  moreover have "inv_valid t"
    using inv by (simp add: bridge_inv_def inv_valid_def c)
  moreover have "inv_held t"
  proof (rule inv_heldI)
    fix i q assume a: "i \<in> held t" "user_data t (i, 0) = Some q"
    then have i: "i \<in> held s" "i \<noteq> img" "user_data s (i, 0) = Some q"
      by (simp_all add: t)
    have "q \<noteq> r"
      using inv_heldD3 [OF ih i(1) h, of r] i Some by auto
    moreover have "refs s q \<noteq> None"
      using inv_heldD1 [OF ih i(1,3)] .
    ultimately show "refs t q \<noteq> None"
      by (simp add: t)
  next
    fix q assume "refs t q \<noteq> None"
    then have q: "q \<noteq> r" "refs s q \<noteq> None"
      by (auto simp: t split: if_splits)
    then obtain i where i: "i \<in> held s" "user_data s (i, 0) = Some q"
      using inv_heldD2 [OF ih, of q] by auto
    with Some q(1) have "i \<noteq> img" by auto
    with i show "\<exists>i\<in>held t. user_data t (i, 0) = Some q"
      by (auto simp: t)
  next
    fix i i' q assume "i \<in> held t" "i' \<in> held t" "user_data t (i, 0) = Some q" "user_data t (i', 0) = Some q"
    then show "i = i'"
      using inv_heldD3 [OF ih, of i i' q] by (simp add: t)
  qed
  ultimately have "bridge_inv t" by (simp add: bridge_inv_def)
  then show ?thesis
    unfolding rel by (simp add: t_def es_def)
qed


lemma deliver_picture_inv:
  assumes inv: "bridge_inv s" and h: "img \<in> held s"
  shows "bridge_inv (deliver_picture img s)"
proof (cases "user_data s (img, 0)")
  case None
  then show ?thesis using inv by (simp add: deliver_picture_def)
next
  case (Some r)
  from held_ref_live [OF inv h Some] obtain ref where ref: "refs s r = Some ref" "mapped ref"
    by blast
  define t where "t = s\<lparr>refs := (refs s)(r \<mapsto> ref\<lparr>buffer := None\<rparr>),
                         events := events s @ [Finish_frame (frame ref) (buffer ref)]\<rparr>"
  have d: "deliver_picture img s = t"
    using Some ref by (simp add: deliver_picture_def t_def)
  have c: "ev_count t (Malloc_ref q) = ev_count s (Malloc_ref q)"
    "ev_count t (Frame_map q) = ev_count s (Frame_map q)"
    "ev_count t (Frame_unmap q) = ev_count s (Frame_unmap q)"
    "ev_count t (Free_ref q) = ev_count s (Free_ref q)"
    "ev_count t (Invalid_ref q) = ev_count s (Invalid_ref q)" for q
    by (simp_all add: t_def ev_count_def)
  have t: "refs t = (refs s)(r \<mapsto> ref\<lparr>buffer := None\<rparr>)" "next_ref t = next_ref s" "held t = held s"
    "user_data t = user_data s"
    by (simp_all add: t_def)
  have none_iff: "refs t q = None \<longleftrightarrow> refs s q = None" for q
    using ref(1) by (simp add: t)
  have ih: "inv_held s" using inv by (simp add: bridge_inv_def)
  have "inv_unused t"
    using inv by (simp add: bridge_inv_def inv_unused_def c none_iff t(2))
  moreover have "inv_live t"
    unfolding inv_live_def
  proof (intro allI impI)
    fix q rf assume q: "refs t q = Some rf"
    then obtain rf' where rf': "refs s q = Some rf'" "mapped rf = mapped rf'"
      using ref(1) by (cases "q = r") (auto simp: t)
    with inv have "mapped rf' \<and> ev_count s (Malloc_ref q) = 1 \<and> ev_count s (Frame_map q) = 1 \<and>
        ev_count s (Frame_unmap q) = 0 \<and> ev_count s (Free_ref q) = 0"
      by (simp add: bridge_inv_def inv_live_def)
    with rf'(2) show "mapped rf \<and> ev_count t (Malloc_ref q) = 1 \<and> ev_count t (Frame_map q) = 1 \<and>
        ev_count t (Frame_unmap q) = 0 \<and> ev_count t (Free_ref q) = 0"
      by (simp add: c)
  qed
  moreover have "inv_freed t"
    using inv by (simp add: bridge_inv_def inv_freed_def c none_iff t(2))
  moreover have "inv_valid t"
    using inv by (simp add: bridge_inv_def inv_valid_def c)
  moreover have "inv_held t"
  proof (rule inv_heldI)
    fix i q assume "i \<in> held t" "user_data t (i, 0) = Some q"
    then show "refs t q \<noteq> None"
      using inv_heldD1 [OF ih, of i q] by (simp add: none_iff) (simp add: t)
  next
    fix q assume "refs t q \<noteq> None"
    then show "\<exists>i\<in>held t. user_data t (i, 0) = Some q"
      using inv_heldD2 [OF ih, of q] by (simp add: none_iff) (simp add: t)
  next
    fix i i' q assume "i \<in> held t" "i' \<in> held t" "user_data t (i, 0) = Some q" "user_data t (i', 0) = Some q"
    then show "i = i'"
      using inv_heldD3 [OF ih, of i i' q] by (simp add: t)
  qed
  ultimately show ?thesis by (simp add: bridge_inv_def d)
qed

lemma callback_step_inv:
  assumes "bridge_inv s" "callback_step c s = Some s'"
  shows "bridge_inv s'"
proof (cases c)
  case (Get_buffer spec host img)
  with assms(2) have nh: "img \<notin> held s"
    by (simp split: if_splits)
  obtain ret t where call: "gst_libde265_dec_get_buffer spec host img s = (ret, t)"
    by (cases "gst_libde265_dec_get_buffer spec host img s")
  with assms(2) Get_buffer nh have "s' = (if ret \<noteq> 0 then t\<lparr>held := insert img (held t)\<rparr> else t)"
    by (simp split: if_splits)
  then show ?thesis
    using get_buffer_inv [OF assms(1) nh call] by simp
next
  case (Release_buffer img)
  with assms(2) have "img \<in> held s"
    "s' = (gst_libde265_dec_release_buffer img s)\<lparr>held := held s - {img}\<rparr>"
    by (simp_all split: if_splits)
  then show ?thesis
    using release_buffer_inv [OF assms(1)] by simp
next
  case (Deliver img)
  with assms(2) have "img \<in> held s" "s' = deliver_picture img s"
    by (simp_all split: if_splits)
  then show ?thesis
    using deliver_picture_inv [OF assms(1)] by simp
qed

lemma run_callbacks_inv:
  assumes "bridge_inv s" "run_callbacks cbs s = Some s'"
  shows "bridge_inv s'"
  using assms
proof (induction cbs arbitrary: s)
  case Nil
  then show ?case by simp
next
  case (Cons c cbs)
  from Cons.prems(2) obtain s1 where s1: "callback_step c s = Some s1" "run_callbacks cbs s1 = Some s'"
    by (cases "callback_step c s") simp_all
  from callback_step_inv [OF Cons.prems(1) s1(1)] have "bridge_inv s1" .
  then show ?case
    using s1(2) by (rule Cons.IH)
qed




text \<open>
  C5. Take any sequence of callbacks in which the engine keeps its side of the contract (it
  asks for a buffer only for a picture that owns none, and releases or outputs only
  pictures that own one), with pictures handed over to the host in between, and the state
  it leads to. Then: every FrameRef has been mapped at most once, unmapped no more often
  than mapped, freed at most once, and no freed FrameRef has been touched; every FrameRef
  still in the store is mapped, was never unmapped or freed, and is the plane-0 user data
  of a picture that owns a buffer; every FrameRef that has left the store was freed
  exactly once, after as many unmaps as maps; once the engine has released every picture,
  every FrameRef ever created has been freed exactly once. And in that state,
  \<^verbatim>\<open>release_buffer\<close> on a picture that owns a buffer does one of two things: without
  a FrameRef in the plane-0 user data it calls the default release routine and changes
  nothing else; with one, it unmaps the FrameRef (which is mapped), then drops the codec
  frame reference and the buffer reference if it still holds one, then frees the wrapper.
\<close>

theorem frame_ref_lifecycle:
  assumes run: "run_callbacks cbs bridge_init = Some s"
  shows "(\<forall>r. ev_count s (Frame_map r) \<le> 1 \<and> ev_count s (Frame_unmap r) \<le> ev_count s (Frame_map r) \<and>
              ev_count s (Free_ref r) \<le> 1 \<and> ev_count s (Invalid_ref r) = 0) \<and>
         (\<forall>r ref. refs s r = Some ref \<longrightarrow>
              mapped ref \<and> ev_count s (Frame_map r) = 1 \<and> ev_count s (Frame_unmap r) = 0 \<and>
              ev_count s (Free_ref r) = 0 \<and> (\<exists>img\<in>held s. user_data s (img, 0) = Some r)) \<and>
         (\<forall>r<next_ref s. refs s r = None \<longrightarrow>
              ev_count s (Free_ref r) = 1 \<and> ev_count s (Frame_unmap r) = ev_count s (Frame_map r)) \<and>
         (held s = {} \<longrightarrow> (\<forall>r<next_ref s. ev_count s (Free_ref r) = 1)) \<and>
         (\<forall>img\<in>held s.
            (user_data s (img, 0) = None \<longrightarrow>
               gst_libde265_dec_release_buffer img s =
                 s\<lparr>events := events s @ [Default_release_buffer img]\<rparr>) \<and>
            (\<forall>r. user_data s (img, 0) = Some r \<longrightarrow>
               (\<exists>ref. refs s r = Some ref \<and> mapped ref \<and>
                  gst_libde265_dec_release_buffer img s =
                    s\<lparr>events := events s @ [Frame_unmap r, Codec_frame_unref (frame ref)]
                               @ (case buffer ref of None \<Rightarrow> [] | Some b \<Rightarrow> [Buffer_unref b])
                               @ [Free_ref r],
                      refs := (refs s)(r := None)\<rparr>)))"
proof -
  have inv: "bridge_inv s"
    using bridge_inv_init run by (rule run_callbacks_inv)
  then have un: "inv_unused s" and lv: "inv_live s" and fr: "inv_freed s" and va: "inv_valid s"
    and ih: "inv_held s"
    by (simp_all add: bridge_inv_def)
  have counts: "ev_count s (Frame_map r) \<le> 1 \<and> ev_count s (Frame_unmap r) \<le> ev_count s (Frame_map r) \<and>
      ev_count s (Free_ref r) \<le> 1 \<and> ev_count s (Invalid_ref r) = 0" for r
  proof (cases "refs s r")
    case (Some ref)
    with lv va show ?thesis by (simp add: inv_live_def inv_valid_def)
  next
    case None
    show ?thesis
    proof (cases "r < next_ref s")
      case True
      with None fr va show ?thesis by (simp add: inv_freed_def inv_valid_def)
    next
      case False
      with un va show ?thesis by (simp add: inv_unused_def inv_valid_def)
    qed
  qed
  have live: "mapped ref \<and> ev_count s (Frame_map r) = 1 \<and> ev_count s (Frame_unmap r) = 0 \<and>
      ev_count s (Free_ref r) = 0 \<and> (\<exists>img\<in>held s. user_data s (img, 0) = Some r)"
    if "refs s r = Some ref" for r ref
    using that lv inv_heldD2 [OF ih, of r] by (simp add: inv_live_def)
  have freed: "ev_count s (Free_ref r) = 1 \<and> ev_count s (Frame_unmap r) = ev_count s (Frame_map r)"
    if "r < next_ref s" "refs s r = None" for r
    using that fr by (simp add: inv_freed_def)
  have all_freed: "ev_count s (Free_ref r) = 1" if "held s = {}" "r < next_ref s" for r
  proof -
    have "refs s r = None"
      using inv_heldD2 [OF ih, of r] that(1) by (cases "refs s r") auto
    with freed that(2) show ?thesis by simp
  qed
  have rel: "(user_data s (img, 0) = None \<longrightarrow>
               gst_libde265_dec_release_buffer img s =
                 s\<lparr>events := events s @ [Default_release_buffer img]\<rparr>) \<and>
            (\<forall>r. user_data s (img, 0) = Some r \<longrightarrow>
               (\<exists>ref. refs s r = Some ref \<and> mapped ref \<and>
                  gst_libde265_dec_release_buffer img s =
                    s\<lparr>events := events s @ [Frame_unmap r, Codec_frame_unref (frame ref)]
                               @ (case buffer ref of None \<Rightarrow> [] | Some b \<Rightarrow> [Buffer_unref b])
                               @ [Free_ref r],
                      refs := (refs s)(r := None)\<rparr>))"
    if "img \<in> held s" for img
    using release_buffer_default [of s img] release_buffer_frame_ref [OF inv that] by blast
  show ?thesis
    using counts live freed all_freed rel by blast
qed

lemma example_get_buffer:
  "gst_libde265_dec_get_buffer example_spec example_host 0 bridge_init =
     (1, bridge_init\<lparr>next_ref := 1,
           refs := (refs bridge_init)(0 \<mapsto> \<lparr>frame = 7, buffer = Some 9, mapped = True\<rparr>),
           events := [Malloc_ref 0, Frame_map 0],
           user_data := (user_data bridge_init)((0, 0) := Some 0, (0, 1) := Some 0, (0, 2) := Some 0),
           bridge_dec := snd (gst_libde265_image_available 64 48 (0, 1) gst_libde265_dec_init)\<rparr>)"
  by (simp add: gst_libde265_dec_get_buffer_def example_spec_def example_host_def bridge_init_def
      Let_def switch_bits_per_pixel_def)


text \<open>
  A picture allocated without copying, handed over to the host, then released: the
  FrameRef is mapped once, unmapped, and freed once; the buffer went with the frame.
\<close>

theorem frame_ref_lifecycle_witness:
  "\<exists>s. run_callbacks [Get_buffer example_spec example_host 0, Deliver 0, Release_buffer 0] bridge_init
          = Some s \<and>
       events s = [Malloc_ref 0, Frame_map 0, Finish_frame 7 (Some 9), Frame_unmap 0,
                   Codec_frame_unref 7, Free_ref 0] \<and>
       held s = {} \<and> next_ref s = 1 \<and>
       ev_count s (Frame_map 0) \<le> 1 \<and> ev_count s (Free_ref 0) = 1"
proof -
  have "\<exists>s. run_callbacks [Get_buffer example_spec example_host 0, Deliver 0, Release_buffer 0] bridge_init
          = Some s \<and>
       events s = [Malloc_ref 0, Frame_map 0, Finish_frame 7 (Some 9), Frame_unmap 0,
                   Codec_frame_unref 7, Free_ref 0] \<and>
       held s = {} \<and> next_ref s = 1"
    by (simp add: example_get_buffer)
       (simp add: bridge_init_def example_spec_def deliver_picture_def
          gst_libde265_dec_release_buffer_def gst_libde265_dec_release_frame_ref_def)
  then obtain s where s:
    "run_callbacks [Get_buffer example_spec example_host 0, Deliver 0, Release_buffer 0] bridge_init = Some s"
    "events s = [Malloc_ref 0, Frame_map 0, Finish_frame 7 (Some 9), Frame_unmap 0,
                   Codec_frame_unref 7, Free_ref 0]"
    "held s = {}" "next_ref s = 1"
    by blast
  from frame_ref_lifecycle [OF s(1)] s(3,4)
  have "ev_count s (Frame_map 0) \<le> 1" "ev_count s (Free_ref 0) = 1"
    by simp_all
  with s show ?thesis by blast
qed

end
